theory Spec2Isabelle
  imports Main "HOL-Library.Sublist"
begin

section \<open>Paths\<close>

text \<open>
  The source handles paths with Python's \<open>os.path\<close> on POSIX.  The functions it uses
  are written out here as the library documents them: \<open>join\<close>, \<open>normpath\<close>,
  \<open>abspath\<close> (relative to the working directory), \<open>basename\<close> and the
  character-wise \<open>commonprefix\<close>.
\<close>

type_synonym path = string

definition startswith :: "string \<Rightarrow> string \<Rightarrow> bool" where
  "startswith s p = (take (length p) s = p)"

definition endswith :: "string \<Rightarrow> string \<Rightarrow> bool" where
  "endswith s p = (length p \<le> length s \<and> drop (length s - length p) s = p)"

definition path_join :: "path \<Rightarrow> path \<Rightarrow> path" where
  "path_join a b =
     (if startswith b ''/'' then b
      else if a = [] \<or> endswith a ''/'' then a @ b
      else a @ ''/'' @ b)"

fun split_on :: "char \<Rightarrow> string \<Rightarrow> string list" where
  "split_on c [] = [[]]"
| "split_on c (x # xs) =
     (if x = c then [] # split_on c xs
      else (case split_on c xs of [] \<Rightarrow> [[x]] | w # ws \<Rightarrow> (x # w) # ws))"

fun join_with :: "string \<Rightarrow> string list \<Rightarrow> string" where
  "join_with sep [] = []"
| "join_with sep [x] = x"
| "join_with sep (x # y # ys) = x @ sep @ join_with sep (y # ys)"

fun norm_comps :: "nat \<Rightarrow> string list \<Rightarrow> string list \<Rightarrow> string list" where
  "norm_comps initial_slashes [] new_comps = new_comps"
| "norm_comps initial_slashes (cmp # comps) new_comps =
     (if cmp = [] \<or> cmp = ''.'' then norm_comps initial_slashes comps new_comps
      else if cmp \<noteq> ''..'' \<or> (initial_slashes = 0 \<and> new_comps = [])
                \<or> (new_comps \<noteq> [] \<and> last new_comps = ''..'')
        then norm_comps initial_slashes comps (new_comps @ [cmp])
      else if new_comps \<noteq> [] then norm_comps initial_slashes comps (butlast new_comps)
      else norm_comps initial_slashes comps new_comps)"

definition normpath :: "path \<Rightarrow> path" where
  "normpath p =
     (if p = [] then ''.''
      else
        let initial_slashes =
              (if startswith p ''/''
               then (if startswith p ''//'' \<and> \<not> startswith p ''///'' then 2 else 1)
               else (0::nat));
            q = replicate initial_slashes (CHR ''/'')
                  @ join_with ''/'' (norm_comps initial_slashes (split_on (CHR ''/'') p) [])
        in if q = [] then ''.'' else q)"

definition abspath :: "path \<Rightarrow> path \<Rightarrow> path" where
  "abspath wd p = normpath (if startswith p ''/'' then p else path_join wd p)"

definition basename :: "path \<Rightarrow> path" where
  "basename p = last (split_on (CHR ''/'') p)"

fun lcp :: "string \<Rightarrow> string \<Rightarrow> string" where
  "lcp (x # xs) (y # ys) = (if x = y then x # lcp xs ys else [])"
| "lcp _ _ = []"

definition commonprefix :: "string list \<Rightarrow> string" where
  "commonprefix m = (case m of [] \<Rightarrow> [] | x # xs \<Rightarrow> foldl lcp x xs)"

text \<open>
  What it means for a resolved (absolute, normalised) path to lie in a directory: the
  path is the directory itself or a path below it.  This is the notion the safety claim
  about archive extraction speaks of; the source's own test is
  \<open>is_within_directory\<close> further down.
\<close>

definition inside_directory :: "path \<Rightarrow> path \<Rightarrow> bool" where
  "inside_directory d t =
     (t = d \<or> startswith t (if endswith d ''/'' then d else d @ ''/''))"

section \<open>Exceptions, events, environments and the world\<close>

datatype exn =
    DownloadFailure string string
  | ExtractionError string
  | UnsupportedCompression string
  | BadScript string string
  | MissingDefinition string
  | MissingPath string
  | BuildFailure string
  | MissingTargets string "string option"
  | MissingSystemLibs string
  | DownloadRequired string
  | BuildRequired string
  | PyException string
  | PyOSError string
  | PyTarError
  | PyTypeError
  | PyValueError

datatype node = RegFile string | Directory

datatype probe =
    CheckCallback
  | CheckProg string
  | CheckHeader string
  | CheckLib string
  | CheckFunc string

text \<open>
  The trace records what the program does to the outside: every call of
  \<open>subprocess.call\<close> (also one that raises because the program cannot be started), every
  command a dry run only prints, every sleep, every file-system write, every configure
  probe with its answer, every \<open>pkg-config\<close> query, and the two messages of the
  download loop (\<open>Try #n ... failed\<close> and \<open>Successfully downloaded\<close>).
\<close>

datatype event =
    Exec "string list" "path option"
  | WouldRun "string list"
  | Sleep nat
  | Remove path
  | Extract path
  | Rename path path
  | MkDirs path
  | RmTree path
  | Probed probe bool
  | PkgConfig string string
  | TryFailed nat string
  | Downloaded

text \<open>
  A construction environment: list-valued variables (\<open>CPPPATH\<close>, \<open>LIBPATH\<close>,
  \<open>RPATH\<close>, \<open>RPATH_FULL\<close>, \<open>CPPDEFINES\<close>, \<open>LINKFLAGS\<close>, \<open>LIBS\<close>),
  scalar variables (\<open>CC\<close>, \<open>PREFIX\<close>, \<open>FOO_PREFIX\<close>, ...) and the process
  environment \<open>env['ENV']\<close>, whose path-list values are kept as lists of entries.
\<close>

record env =
  lists :: "string \<Rightarrow> string list"
  scalars :: "string \<rightharpoonup> string"
  osenv :: "string \<rightharpoonup> string list"

text \<open>
  Modelled from the spec: \<open>AppendUnique\<close> and \<open>AppendENVPath\<close> of the build
  backend's environment object, which is not under src/: "All appends are
  duplicate-suppressing (append-unique)".  A value already in the list stays where it
  is; a new one goes to the end.
\<close>

definition append_unique :: "'a list \<Rightarrow> 'a \<Rightarrow> 'a list" where
  "append_unique xs v = (if v \<in> set xs then xs else xs @ [v])"

definition AppendUnique :: "string \<Rightarrow> string \<Rightarrow> env \<Rightarrow> env" where
  "AppendUnique key v e = e\<lparr>lists := (lists e)(key := append_unique (lists e key) v)\<rparr>"

definition AppendENVPath :: "string \<Rightarrow> path \<Rightarrow> env \<Rightarrow> env" where
  "AppendENVPath key v e =
     e\<lparr>osenv := (osenv e)(key \<mapsto>
          append_unique (case osenv e key of None \<Rightarrow> [] | Some xs \<Rightarrow> xs) v)\<rparr>"

definition Replace :: "string \<Rightarrow> string option \<Rightarrow> env \<Rightarrow> env" where
  "Replace key v e = e\<lparr>scalars := (scalars e)(key := v)\<rparr>"

record world =
  fs :: "path \<rightharpoonup> node"
  cwd :: path
  os_environ :: "string \<rightharpoonup> string list"
  trace :: "event list"
  opt_help :: bool
  opt_clean :: bool
  opt_no_exec :: bool
  opt_num_jobs :: string
  runner_initialized :: bool
  runner_dry_run :: bool

text \<open>
  What the program cannot decide itself is a field of \<open>sys\<close>: variable substitution,
  what \<open>subprocess.call\<close> does (the \<open>OSError\<close> it raises when the program cannot
  be started, or the exit status and file-system effect of the process), the MD5 digest, the
  member list of an archive, the answer of a configure probe, the flags
  \<open>pkg-config\<close> prints (parsed: the variables with the values reported for each), whether \<open>os.makedirs\<close> succeeds, a directory listing and
  the content of a configuration file.  Every theorem below holds for every \<open>sys\<close>.
\<close>

record sys =
  env_subst :: "env \<Rightarrow> string \<Rightarrow> string"
  call :: "string list \<Rightarrow> path option \<Rightarrow> (string \<rightharpoonup> string list) \<Rightarrow> world
             \<Rightarrow> exn + int \<times> (path \<rightharpoonup> node)"
  md5_hexdigest :: "string \<Rightarrow> string"
  tar_members :: "string \<Rightarrow> (string \<times> node) list option"
  check :: "probe \<Rightarrow> env \<Rightarrow> world \<Rightarrow> bool \<times> env"
  pkg_config :: "string \<Rightarrow> string \<Rightarrow> (string \<rightharpoonup> string list) \<Rightarrow> (path \<rightharpoonup> node)
             \<Rightarrow> (string \<times> string list) list option"
  makedirs_ok :: "path \<Rightarrow> world \<Rightarrow> bool"
  listdir :: "path \<Rightarrow> world \<Rightarrow> string list"
  read_config :: "path \<Rightarrow> world \<Rightarrow> (string \<times> string \<times> string) list"

definition emit :: "event \<Rightarrow> world \<Rightarrow> world" where
  "emit ev w = w\<lparr>trace := trace w @ [ev]\<rparr>"

definition exists :: "world \<Rightarrow> path \<Rightarrow> bool" where
  "exists w p = (p \<noteq> [] \<and> fs w (abspath (cwd w) p) \<noteq> None)"

definition isdir :: "world \<Rightarrow> path \<Rightarrow> bool" where
  "isdir w p = (p \<noteq> [] \<and> fs w (abspath (cwd w) p) = Some Directory)"

definition os_remove :: "path \<Rightarrow> world \<Rightarrow> world" where
  "os_remove p w =
     emit (Remove (abspath (cwd w) p)) (w\<lparr>fs := (fs w)(abspath (cwd w) p := None)\<rparr>)"

section \<open>Runner\<close>

text \<open>
  \<open>Runner.run_commands\<close>.  The runner's environment is the registry's own environment
  object (the global \<open>RUNNER\<close> is initialised with it), so callers hand it over as
  \<open>renv\<close>; \<open>envo\<close> is the optional \<open>env\<close> argument.
\<close>

fun build_cmd :: "sys \<Rightarrow> env \<Rightarrow> string \<Rightarrow> string list \<Rightarrow> string list" where
  "build_cmd sy renv nj [] = []"
| "build_cmd sy renv nj (part # parts) =
     (if part = ''make'' then [''make'', ''-j'', nj] else [env_subst sy renv part])
       @ build_cmd sy renv nj parts"

fun run_loop :: "sys \<Rightarrow> env \<Rightarrow> bool \<Rightarrow> path option \<Rightarrow> (string \<rightharpoonup> string list)
                   \<Rightarrow> string list list \<Rightarrow> world \<Rightarrow> (exn + bool) \<times> world" where
  "run_loop sy renv dry subdir penv [] w = (Inr True, w)"
| "run_loop sy renv dry subdir penv (command # rest) w =
     (let cmd = build_cmd sy renv (opt_num_jobs w) command in
      if dry then run_loop sy renv dry subdir penv rest (emit (WouldRun cmd) w)
      else
        case call sy cmd subdir penv w of
          Inl e \<Rightarrow> (Inl e, emit (Exec cmd subdir) w)
        | Inr (rc, fs') \<Rightarrow>
            (let w' = emit (Exec cmd subdir) (w\<lparr>fs := fs'\<rparr>)
             in if rc \<noteq> 0 then (Inr False, w') else run_loop sy renv dry subdir penv rest w'))"

definition run_commands :: "sys \<Rightarrow> env \<Rightarrow> string list list \<Rightarrow> path option \<Rightarrow> env option
                              \<Rightarrow> world \<Rightarrow> (exn + bool) \<times> world" where
  "run_commands sy renv commands subdir envo w =
     (if \<not> runner_initialized w then (Inl (PyException ''PreReqComponent not initialized''), w)
      else
        let passed_env = (case envo of Some e \<Rightarrow> e | None \<Rightarrow> renv) in
        run_loop sy renv (runner_dry_run w) subdir (osenv passed_env) commands w)"

section \<open>WebRetriever\<close>

record web_retriever =
  web_url :: string
  web_md5 :: string
  web_dry_run :: bool

definition check_md5 :: "sys \<Rightarrow> web_retriever \<Rightarrow> path \<Rightarrow> world \<Rightarrow> (exn + bool) \<times> world" where
  "check_md5 sy r filename w =
     (if \<not> exists w filename then (Inr False, w)
      else case fs w (abspath (cwd w) filename) of
          Some (RegFile content) \<Rightarrow>
            (if md5_hexdigest sy content \<noteq> web_md5 r then (Inr False, os_remove filename w)
             else (Inr True, w))
        | _ \<Rightarrow> (Inl (PyOSError ''IsADirectoryError''), w))"

text \<open>
  \<open>download\<close> hands \<open>run_commands\<close> one flat list of strings where a list of
  commands is expected; Python then iterates over each string, so every string is a
  "command" whose parts are its characters.  \<open>chars_of\<close> is that iteration.
\<close>

definition chars_of :: "string \<Rightarrow> string list" where
  "chars_of s = map (\<lambda>c. [c]) s"

fun download_loop :: "sys \<Rightarrow> env \<Rightarrow> web_retriever \<Rightarrow> path \<Rightarrow> nat \<Rightarrow> nat list \<Rightarrow> nat
                        \<Rightarrow> world \<Rightarrow> (exn + bool) \<times> world" where
  "download_loop sy renv r bname retries [] initial_sleep w = (Inr False, w)"
| "download_loop sy renv r bname retries (idx # idxs) initial_sleep w =
     (let command = [''curl'', ''-sSf'', ''--location'', ''--remote-name'', web_url r] in
      case run_commands sy renv (map chars_of command) None None w of
        (Inl e, w1) \<Rightarrow> (Inl e, w1)
      | (Inr cmd_ok, w1) \<Rightarrow>
          (case (if cmd_ok then check_md5 sy r bname w1 else (Inr False, w1)) of
             (Inl e, w2) \<Rightarrow> (Inl e, w2)
           | (Inr matched, w2) \<Rightarrow>
               if cmd_ok \<and> matched then (Inr True, emit Downloaded w2)
               else
                 let failure_reason = (if cmd_ok then ''md5 mismatch'' else ''Download command failed'');
                     w3 = emit (TryFailed (idx + 1) failure_reason) w2
                 in if idx \<noteq> retries
                    then download_loop sy renv r bname retries idxs (initial_sleep * 2)
                           (emit (Sleep initial_sleep) w3)
                    else download_loop sy renv r bname retries idxs initial_sleep w3))"

definition download :: "sys \<Rightarrow> env \<Rightarrow> web_retriever \<Rightarrow> path \<Rightarrow> world \<Rightarrow> (exn + bool) \<times> world" where
  "download sy renv r bname w =
     (let initial_sleep = 1; retries = 3
      in download_loop sy renv r bname retries [0 ..< retries + 1] initial_sleep w)"

definition is_within_directory :: "world \<Rightarrow> path \<Rightarrow> path \<Rightarrow> bool" where
  "is_within_directory w directory target =
     (let abs_directory = abspath (cwd w) directory;
          abs_target = abspath (cwd w) target;
          pre = commonprefix [abs_directory, abs_target]
      in pre = abs_directory)"

text \<open>
  \<open>tar.extractall(path)\<close>: every member is written at \<open>path\<close> joined with its name,
  after the directories above it that are missing have been made.  A directory member
  whose path exists is left alone; a file member is written over an existing file.  A
  regular file in the place of a directory, or a directory in the place of a file member,
  is an \<open>OSError\<close>.  \<open>ancestors\<close> are the directories above an absolute path, the
  root left out, outermost first.
\<close>

definition ancestors :: "path \<Rightarrow> path list" where
  "ancestors p =
     (let comps = split_on (CHR ''/'') p
      in map (\<lambda>n. join_with ''/'' (take n comps)) [2 ..< length comps])"

fun make_parents :: "path list \<Rightarrow> world \<Rightarrow> (exn + unit) \<times> world" where
  "make_parents [] w = (Inr (), w)"
| "make_parents (d # ds) w =
     (case fs w d of
        None \<Rightarrow> make_parents ds (emit (Extract d) (w\<lparr>fs := (fs w)(d \<mapsto> Directory)\<rparr>))
      | Some Directory \<Rightarrow> make_parents ds w
      | Some (RegFile content) \<Rightarrow> (Inl (PyOSError ''NotADirectoryError''), w))"

fun extractall :: "path \<Rightarrow> (string \<times> node) list \<Rightarrow> world \<Rightarrow> (exn + unit) \<times> world" where
  "extractall p [] w = (Inr (), w)"
| "extractall p ((name, nd) # members) w =
     (let target = abspath (cwd w) (path_join p name)
      in case make_parents (ancestors target) w of
           (Inl e, w1) \<Rightarrow> (Inl e, w1)
         | (Inr u, w1) \<Rightarrow>
             (case nd of
                Directory \<Rightarrow>
                  extractall p members
                    (if fs w1 target = None
                     then emit (Extract target) (w1\<lparr>fs := (fs w1)(target \<mapsto> Directory)\<rparr>)
                     else w1)
              | RegFile content \<Rightarrow>
                  if fs w1 target = Some Directory
                  then (Inl (PyOSError ''IsADirectoryError''), w1)
                  else extractall p members
                         (emit (Extract target) (w1\<lparr>fs := (fs w1)(target \<mapsto> RegFile content)\<rparr>))))"

fun safe_extract_check :: "world \<Rightarrow> path \<Rightarrow> (string \<times> node) list \<Rightarrow> bool" where
  "safe_extract_check w p [] = True"
| "safe_extract_check w p ((name, nd) # members) =
     (let member_path = path_join p name
      in if \<not> is_within_directory w p member_path then False
         else safe_extract_check w p members)"

definition safe_extract :: "(string \<times> node) list \<Rightarrow> path \<Rightarrow> world \<Rightarrow> (exn + unit) \<times> world" where
  "safe_extract tar p w =
     (if \<not> safe_extract_check w p tar
      then (Inl (PyException ''Attempted Path Traversal in Tar File''), w)
      else extractall p tar w)"

text \<open>
  \<open>os.rename(src, dst)\<close> moves \<open>src\<close> and everything below it; a source that does
  not exist is an \<open>OSError\<close>.
\<close>

definition os_rename :: "path \<Rightarrow> path \<Rightarrow> world \<Rightarrow> (exn + unit) \<times> world" where
  "os_rename src dst w =
     (let s = abspath (cwd w) src; d = abspath (cwd w) dst in
      if \<not> exists w src then (Inl (PyOSError ''FileNotFoundError''), w)
      else (Inr (), emit (Rename s d)
             (w\<lparr>fs := (\<lambda>p. if p = d \<or> startswith p (d @ ''/'')
                             then fs w (s @ drop (length d) p)
                             else if p = s \<or> startswith p (s @ ''/'') then None
                             else fs w p)\<rparr>)))"

text \<open>
  The exceptions the handler of \<open>get\<close> turns into \<open>ExtractionError\<close>: \<open>IOError\<close>
  (which is \<open>OSError\<close>) and \<open>tarfile.TarError\<close>.  Any other exception passes.
\<close>

fun io_or_tar_error :: "exn \<Rightarrow> bool" where
  "io_or_tar_error (PyOSError msg) = True"
| "io_or_tar_error PyTarError = True"
| "io_or_tar_error _ = False"

definition web_get :: "sys \<Rightarrow> env \<Rightarrow> web_retriever \<Rightarrow> path \<Rightarrow> world \<Rightarrow> (exn + unit) \<times> world" where
  "web_get sy renv r subdir w =
     (let bname = basename (web_url r) in
      if exists w subdir then (Inr (), w)
      else
        case check_md5 sy r bname w of
          (Inl e, w1) \<Rightarrow> (Inl e, w1)
        | (Inr have_file, w1) \<Rightarrow>
            (case (if have_file then (Inr True, w1) else download sy renv r bname w1) of
               (Inl e, w2) \<Rightarrow> (Inl e, w2)
             | (Inr fetched, w2) \<Rightarrow>
                 if \<not> fetched then (Inl (DownloadFailure (web_url r) subdir), w2)
                 else if endswith (web_url r) ''.tar.gz'' \<or> endswith (web_url r) ''.tgz'' then
                   (if web_dry_run r then (Inr (), w2)
                    else
                      case fs w2 (abspath (cwd w2) bname) of
                        Some (RegFile content) \<Rightarrow>
                          (case tar_members sy content of
                             None \<Rightarrow> (Inl (ExtractionError subdir), w2)
                           | Some tfile \<Rightarrow>
                               (let pre = commonprefix (map fst tfile) in
                                case safe_extract tfile ''.'' w2 of
                                  (Inl e, w3) \<Rightarrow>
                                    (Inl (if io_or_tar_error e then ExtractionError subdir else e), w3)
                                | (Inr u, w3) \<Rightarrow>
                                    (case os_rename pre subdir w3 of
                                       (Inl e, w4) \<Rightarrow>
                                         (Inl (if io_or_tar_error e then ExtractionError subdir else e), w4)
                                     | (Inr u, w4) \<Rightarrow> (Inr (), w4))))
                      | _ \<Rightarrow> (Inl (ExtractionError subdir), w2))
                 else (Inl (UnsupportedCompression subdir), w2)))"

section \<open>Example inputs\<close>

text \<open>Example inputs for the retriever theorems.\<close>

definition example_sys :: sys where
  "example_sys =
     \<lparr>env_subst = (\<lambda>e s. s), call = (\<lambda>cmd sd penv w. Inr (0, fs w)),
      md5_hexdigest = (\<lambda>c. c), tar_members = (\<lambda>c. None), check = (\<lambda>p e w. (True, e)),
      pkg_config = (\<lambda>opts nm penv files. None), makedirs_ok = (\<lambda>p w. True),
      listdir = (\<lambda>p w. []), read_config = (\<lambda>p w. [])\<rparr>"

definition example_world :: world where
  "example_world =
     \<lparr>fs = [''/a'' \<mapsto> Directory, ''/a/b'' \<mapsto> Directory,
            ''/a/b/pkg.tar.gz'' \<mapsto> RegFile ''d1''], cwd = ''/a/b'',
      os_environ = Map.empty, trace = [], opt_help = False, opt_clean = False,
      opt_no_exec = False, opt_num_jobs = ''1'', runner_initialized = True,
      runner_dry_run = False\<rparr>"

definition example_env :: env where
  "example_env = \<lparr>lists = (\<lambda>k. []), scalars = Map.empty, osenv = Map.empty\<rparr>"

definition traversal_sys :: sys where
  "traversal_sys =
     example_sys\<lparr>tar_members := (\<lambda>c. Some [(''pkg'', Directory), (''pkg/a.c'', RegFile ''x''),
                                             (''pkg/../../b_evil/x'', RegFile ''y'')])\<rparr>"

definition example_web :: web_retriever where
  "example_web = \<lparr>web_url = ''http://h/pkg.tar.gz'', web_md5 = ''d1'', web_dry_run = False\<rparr>"

text \<open>
  A machine that has \<open>curl\<close> and \<open>git\<close> and no program whose name is a single
  character: \<open>subprocess.call\<close> raises \<open>FileNotFoundError\<close> for every other program.
\<close>

definition no_c_sys :: sys where
  "no_c_sys =
     example_sys\<lparr>call := (\<lambda>cmd sd penv w.
        if cmd \<noteq> [] \<and> (hd cmd = ''curl'' \<or> hd cmd = ''git'') then Inr (0, fs w)
        else Inl (PyOSError ''FileNotFoundError''))\<rparr>"

section \<open>GitRepoRetriever\<close>

record git_retriever =
  git_url :: string
  has_submodules :: bool
  branch :: "string option"
  commit_sha :: "string option"

text \<open>
  The keyword arguments of \<open>get\<close>: \<open>commit_sha\<close>, \<open>branch\<close> and \<open>patches\<close>, an
  ordered mapping from a patch to the subdirectory it applies in.
\<close>

record get_kw =
  kw_commit_sha :: "string option"
  kw_branch :: "string option"
  kw_patches :: "(path \<times> string option) list option"

definition truthy :: "string option \<Rightarrow> bool" where
  "truthy v = (case v of None \<Rightarrow> False | Some s \<Rightarrow> s \<noteq> [])"

text \<open>
  \<open>if not RUNNER.run_commands(commands, subdir=...): raise DownloadFailure(url, subdir)\<close>,
  the step every git operation of the retriever is made of.
\<close>

definition run_or_fail :: "sys \<Rightarrow> env \<Rightarrow> git_retriever \<Rightarrow> path \<Rightarrow> string list list
                             \<Rightarrow> path option \<Rightarrow> world \<Rightarrow> (exn + unit) \<times> world" where
  "run_or_fail sy renv g subdir commands cwd_arg w =
     (case run_commands sy renv commands cwd_arg None w of
        (Inl e, w') \<Rightarrow> (Inl e, w')
      | (Inr ok, w') \<Rightarrow>
          if \<not> ok then (Inl (DownloadFailure (git_url g) subdir), w') else (Inr (), w'))"

definition checkout_commit :: "sys \<Rightarrow> env \<Rightarrow> git_retriever \<Rightarrow> path \<Rightarrow> world
                                 \<Rightarrow> (exn + unit) \<times> world" where
  "checkout_commit sy renv g subdir w =
     (case commit_sha g of
        None \<Rightarrow> (Inr (), w)
      | Some sha \<Rightarrow> run_or_fail sy renv g subdir [[''git'', ''checkout'', sha]] (Some subdir) w)"

fun apply_patches_loop :: "sys \<Rightarrow> env \<Rightarrow> git_retriever \<Rightarrow> path \<Rightarrow> (path \<times> string option) list
                             \<Rightarrow> world \<Rightarrow> (exn + unit) \<times> world" where
  "apply_patches_loop sy renv g subdir [] w = (Inr (), w)"
| "apply_patches_loop sy renv g subdir ((patch, dir) # patches) w =
     (let command = [''git'', ''apply'']
                      @ (case dir of None \<Rightarrow> [] | Some d \<Rightarrow> [''--directory'', d]) @ [patch]
      in case run_or_fail sy renv g subdir [command] (Some subdir) w of
           (Inl e, w') \<Rightarrow> (Inl e, w')
         | (Inr u, w') \<Rightarrow> apply_patches_loop sy renv g subdir patches w')"

definition apply_patches :: "sys \<Rightarrow> env \<Rightarrow> git_retriever \<Rightarrow> path
                               \<Rightarrow> (path \<times> string option) list option \<Rightarrow> world
                               \<Rightarrow> (exn + unit) \<times> world" where
  "apply_patches sy renv g subdir patches w =
     (case patches of
        None \<Rightarrow> (Inr (), w)
      | Some ps \<Rightarrow> apply_patches_loop sy renv g subdir ps w)"

definition update_submodules :: "sys \<Rightarrow> env \<Rightarrow> git_retriever \<Rightarrow> path \<Rightarrow> world
                                   \<Rightarrow> (exn + unit) \<times> world" where
  "update_submodules sy renv g subdir w =
     (if has_submodules g
      then run_or_fail sy renv g subdir
             [[''git'', ''submodule'', ''init''], [''git'', ''submodule'', ''update'']] (Some subdir) w
      else (Inr (), w))"

text \<open>
  \<open>git checkout ref\<close>; when that fails, \<open>git fetch -t -a\<close>; when that fails too,
  \<open>DownloadFailure\<close>.  Then the retriever's \<open>commit_sha\<close> is set to the ref and
  \<open>checkout_commit\<close> checks it out.
\<close>

definition checkout_ref :: "sys \<Rightarrow> env \<Rightarrow> git_retriever \<Rightarrow> path \<Rightarrow> string \<Rightarrow> world
                              \<Rightarrow> (exn + unit) \<times> git_retriever \<times> world" where
  "checkout_ref sy renv g subdir ref w =
     (case run_commands sy renv [[''git'', ''checkout'', ref]] (Some subdir) None w of
        (Inl e, w1) \<Rightarrow> (Inl e, g, w1)
      | (Inr ok, w1) \<Rightarrow>
          (case (if \<not> ok
                 then run_or_fail sy renv g subdir [[''git'', ''fetch'', ''-t'', ''-a'']] (Some subdir) w1
                 else (Inr (), w1)) of
             (Inl e, w2) \<Rightarrow> (Inl e, g, w2)
           | (Inr u, w2) \<Rightarrow>
               (let g' = g\<lparr>commit_sha := Some ref\<rparr>
                in case checkout_commit sy renv g' subdir w2 of (r, w3) \<Rightarrow> (r, g', w3))))"

definition get_specific :: "sys \<Rightarrow> env \<Rightarrow> git_retriever \<Rightarrow> path \<Rightarrow> get_kw \<Rightarrow> world
                              \<Rightarrow> (exn + unit) \<times> git_retriever \<times> world" where
  "get_specific sy renv g subdir kw w =
     (let br = (case kw_branch kw of None \<Rightarrow> branch g | Some b \<Rightarrow> Some b);
          g0 = g\<lparr>branch := br\<rparr>
      in case (if truthy br then checkout_ref sy renv g0 subdir (the br) w else (Inr (), g0, w)) of
           (Inl e, g1, w1) \<Rightarrow> (Inl e, g1, w1)
         | (Inr u, g1, w1) \<Rightarrow>
             (case (case kw_commit_sha kw of
                      None \<Rightarrow> (Inr (), g1, w1)
                    | Some passed_commit_sha \<Rightarrow> checkout_ref sy renv g1 subdir passed_commit_sha w1) of
                (Inl e, g2, w2) \<Rightarrow> (Inl e, g2, w2)
              | (Inr u, g2, w2) \<Rightarrow>
                  (case run_or_fail sy renv g2 subdir [[''git'', ''reset'', ''--hard'', ''HEAD'']]
                          (Some subdir) w2 of
                     (Inl e, w3) \<Rightarrow> (Inl e, g2, w3)
                   | (Inr u, w3) \<Rightarrow>
                       (case update_submodules sy renv g2 subdir w3 of
                          (Inl e, w4) \<Rightarrow> (Inl e, g2, w4)
                        | (Inr u, w4) \<Rightarrow>
                            (case apply_patches sy renv g2 subdir (kw_patches kw) w4 of
                               (r, w5) \<Rightarrow> (r, g2, w5))))))"

definition git_get :: "sys \<Rightarrow> env \<Rightarrow> git_retriever \<Rightarrow> path \<Rightarrow> get_kw \<Rightarrow> world
                         \<Rightarrow> (exn + unit) \<times> git_retriever \<times> world" where
  "git_get sy renv g subdir kw w =
     (case kw_commit_sha kw of
        None \<Rightarrow> (Inl (DownloadFailure (git_url g) subdir), g, w)
      | Some passed_commit_sha \<Rightarrow>
          (case (if \<not> exists w subdir
                 then run_or_fail sy renv g subdir [[''git'', ''clone'', git_url g, subdir]] None w
                 else (Inr (), w)) of
             (Inl e, w1) \<Rightarrow> (Inl e, g, w1)
           | (Inr u, w1) \<Rightarrow> get_specific sy renv g subdir kw w1))"

definition example_git :: git_retriever where
  "example_git = \<lparr>git_url = ''https://h/bar.git'', has_submodules = False, branch = None,
                   commit_sha = None\<rparr>"

text \<open>A command event: a process started, or the line a dry run prints in its place.\<close>

fun is_command :: "event \<Rightarrow> bool" where
  "is_command (Exec cmd subdir) = True"
| "is_command (WouldRun cmd) = True"
| "is_command _ = False"

definition command_event :: "sys \<Rightarrow> env \<Rightarrow> world \<Rightarrow> string list \<Rightarrow> path option \<Rightarrow> event" where
  "command_event sy renv w command subdir =
     (if runner_dry_run w then WouldRun (build_cmd sy renv (opt_num_jobs w) command)
      else Exec (build_cmd sy renv (opt_num_jobs w) command) subdir)"

text \<open>
  \<open>grows P w w'\<close>: the trace of \<open>w'\<close> is the trace of \<open>w\<close> followed by events that all
  satisfy \<open>P\<close>.
\<close>

definition grows :: "(event \<Rightarrow> bool) \<Rightarrow> world \<Rightarrow> world \<Rightarrow> bool" where
  "grows P w w' = (\<exists>new. trace w' = trace w @ new \<and> list_all P new)"

section \<open>Components\<close>

datatype retriever = Git git_retriever | Web web_retriever

text \<open>
  A \<open>_Component\<close>.  \<open>config_cb\<close> says whether a callback is given; what the callback
  answers is a probe of the outside (\<open>CheckCallback\<close>).  \<open>c_functions\<close> (the field \<open>functions\<close>) is the ordered
  mapping from a library to the functions expected in it.  \<open>prefix_dir\<close> is the field
  \<open>prefix\<close>, \<open>check_only\<close> and \<open>dry_run\<close> are the two options read at construction.
\<close>

record component =
  name :: string
  targets_found :: bool
  use_installed :: bool
  build_path :: "path option"
  prebuilt_path :: "path option"
  patch_rpath :: "string list"
  src_path :: "path option"
  prefix_dir :: "path option"
  component_prefix :: "path option"
  package :: "string option"
  progs :: "string list"
  libs :: "string list"
  libs_cc :: "string option"
  c_functions :: "(string \<times> string list) list"
  config_cb :: bool
  required_libs :: "string list"
  required_progs :: "string list"
  c_defines :: "string list"
  headers :: "string list"
  requires :: "string list"
  pkgconfig :: "string option"
  build_commands :: "string list list"
  retriever :: "retriever option"
  lib_path :: "string list"
  include_path :: "string list"
  out_of_src_build :: bool
  patch_path :: path
  check_only :: bool
  dry_run :: bool

definition upper_char :: "char \<Rightarrow> char" where
  "upper_char c =
     (let n = (of_char c :: nat) in if 97 \<le> n \<and> n \<le> 122 then char_of (n - 32) else c)"

definition upper :: "string \<Rightarrow> string" where
  "upper s = map upper_char s"

definition lower_char :: "char \<Rightarrow> char" where
  "lower_char c =
     (let n = (of_char c :: nat) in if 65 \<le> n \<and> n \<le> 90 then char_of (n + 32) else c)"

definition lower :: "string \<Rightarrow> string" where
  "lower s = map lower_char s"

definition append_all :: "string \<Rightarrow> string list \<Rightarrow> env \<Rightarrow> env" where
  "append_all key vs e = foldl (\<lambda>e v. AppendUnique key v e) e vs"

text \<open>
  Modelled from the spec: \<open>ParseConfig\<close> of the build backend's environment object, which
  is not under src/: "merge pkg-config compiler flags (best-effort; failure is silently
  ignored)".  The merge is the backend's \<open>MergeFlags\<close> with its default \<open>unique\<close>: for
  every variable \<open>pkg-config\<close> reports values for, the values are put behind the
  variable's entries and duplicates are dropped from the whole list, keeping the left-most
  occurrence when the name of the variable ends in \<open>PATH\<close> and the right-most one
  otherwise.  \<open>pkg-config\<close> is a process of its own: what it prints depends on its
  arguments, the process environment and the file system.  \<open>None\<close> is the \<open>OSError\<close>
  of a failed run.
\<close>

definition dedup :: "string \<Rightarrow> string list \<Rightarrow> string list" where
  "dedup key xs = (if endswith key ''PATH'' then rev (remdups (rev xs)) else remdups xs)"

definition merge_flag :: "string \<times> string list \<Rightarrow> env \<Rightarrow> env" where
  "merge_flag kv e =
     (case kv of
        (key, vs) \<Rightarrow>
          if vs = [] then e
          else e\<lparr>lists := (lists e)(key := dedup key (lists e key @ vs))\<rparr>)"

definition merge_flags :: "(string \<times> string list) list \<Rightarrow> env \<Rightarrow> env" where
  "merge_flags flags e = foldl (\<lambda>e kv. merge_flag kv e) e flags"

definition ParseConfig :: "sys \<Rightarrow> string \<Rightarrow> string \<Rightarrow> env \<Rightarrow> world \<Rightarrow> env option \<times> world" where
  "ParseConfig sy opts pc e w =
     (case pkg_config sy opts pc (osenv e) (fs w) of
        None \<Rightarrow> (None, emit (PkgConfig opts pc) w)
      | Some flags \<Rightarrow> (Some (merge_flags flags e), emit (PkgConfig opts pc) w))"

fun pkgconfig_dirs :: "world \<Rightarrow> path \<Rightarrow> string list \<Rightarrow> bool \<times> env \<Rightarrow> bool \<times> env" where
  "pkgconfig_dirs w cp [] (path_found, e) = (path_found, e)"
| "pkgconfig_dirs w cp (p # ps) (path_found, e) =
     (let config = path_join (path_join cp p) ''pkgconfig'' in
      if \<not> exists w config then pkgconfig_dirs w cp ps (path_found, e)
      else pkgconfig_dirs w cp ps (True, AppendENVPath ''PKG_CONFIG_PATH'' config e))"

text \<open>
  The part of \<open>parse_config\<close> before \<open>pkg-config\<close> runs: \<open>PKG_CONFIG_PATH\<close> is taken
  over from the process environment when the construction environment has none, and
  the \<open>pkgconfig\<close> directories under the component's prefix are added to it.  The
  boolean is False when the prefix was searched and has no such directory.
\<close>

definition pkg_config_env :: "world \<Rightarrow> component \<Rightarrow> env \<Rightarrow> bool \<times> env" where
  "pkg_config_env w c e =
     (let e1 = (case os_environ w ''PKG_CONFIG_PATH'' of
                  None \<Rightarrow> e
                | Some p \<Rightarrow>
                    if p \<noteq> [] \<and> osenv e ''PKG_CONFIG_PATH'' = None
                    then e\<lparr>osenv := (osenv e)(''PKG_CONFIG_PATH'' \<mapsto> p)\<rparr> else e)
      in case component_prefix c of
           Some cp \<Rightarrow>
             if \<not> use_installed c \<and> cp \<noteq> ''/usr''
             then pkgconfig_dirs w cp [''lib'', ''lib64''] (False, e1)
             else (True, e1)
         | None \<Rightarrow> (True, e1))"

definition parse_config :: "sys \<Rightarrow> component \<Rightarrow> string \<Rightarrow> env \<Rightarrow> world \<Rightarrow> env \<times> world" where
  "parse_config sy c opts e w =
     (case pkgconfig c of
        None \<Rightarrow> (e, w)
      | Some pc \<Rightarrow>
          (case pkg_config_env w c e of
             (path_found, e2) \<Rightarrow>
               if \<not> path_found then (e2, w)
               else case ParseConfig sy opts pc e2 w of
                      (None, w') \<Rightarrow> (e2, w')
                    | (Some e3, w') \<Rightarrow> (e3, w')))"

text \<open>One configure check: the probe is answered from outside and recorded.\<close>

definition run_probe :: "sys \<Rightarrow> probe \<Rightarrow> env \<Rightarrow> world \<Rightarrow> bool \<times> env \<times> world" where
  "run_probe sy p e w = (case check sy p e w of (ok, e') \<Rightarrow> (ok, e', emit (Probed p ok) w))"

fun check_each :: "sys \<Rightarrow> probe list \<Rightarrow> env \<Rightarrow> world \<Rightarrow> bool \<times> env \<times> world" where
  "check_each sy [] e w = (True, e, w)"
| "check_each sy (p # ps) e w =
     (case run_probe sy p e w of
        (ok, e', w') \<Rightarrow> if \<not> ok then (False, e', w') else check_each sy ps e' w')"

fun check_libs :: "sys \<Rightarrow> component \<Rightarrow> string list \<Rightarrow> env \<Rightarrow> world \<Rightarrow> bool \<times> env \<times> world" where
  "check_libs sy c [] e w = (True, e, w)"
| "check_libs sy c (lib # rest) e w =
     (let old_cc = env_subst sy e ''$CC'';
          e1 = (if truthy (libs_cc c)
                then Replace ''CC'' (libs_cc c)
                       (Replace (upper (name c) @ ''_PREFIX'') (component_prefix c) e)
                else e)
      in case run_probe sy (CheckLib lib) e1 w of
           (result, e2, w') \<Rightarrow>
             (let e3 = Replace ''CC'' (Some old_cc) e2
              in if \<not> result then (False, e3, w') else check_libs sy c rest e3 w'))"

text \<open>
  The loop over \<open>functions\<close>.  \<open>config.env\<close> is the caller's environment object until
  the first round ends with \<open>config.env = saved_env\<close>; from then on it is a clone, and
  the caller's environment is no longer touched.  \<open>cenv\<close> is that clone, once there is
  one.
\<close>

fun check_functions :: "sys \<Rightarrow> (string \<times> string list) list \<Rightarrow> env \<Rightarrow> env option \<Rightarrow> world
                          \<Rightarrow> bool \<times> env \<times> world" where
  "check_functions sy [] e cenv w = (True, e, w)"
| "check_functions sy ((lib, funs) # rest) e cenv w =
     (case cenv of
        None \<Rightarrow>
          (let saved_env = e in
           case check_each sy (map CheckFunc funs) (AppendUnique ''LIBS'' lib e) w of
             (ok, e', w') \<Rightarrow>
               if \<not> ok then (False, e', w') else check_functions sy rest e' (Some saved_env) w')
      | Some ce \<Rightarrow>
          (let saved_env = ce in
           case check_each sy (map CheckFunc funs) (AppendUnique ''LIBS'' lib ce) w of
             (ok, ce', w') \<Rightarrow>
               if \<not> ok then (False, e, w') else check_functions sy rest e (Some saved_env) w'))"

definition run_checks :: "sys \<Rightarrow> component \<Rightarrow> env \<Rightarrow> world \<Rightarrow> bool \<times> env \<times> world" where
  "run_checks sy c e w =
     (case (if config_cb c then run_probe sy CheckCallback e w else (True, e, w)) of
        (ok0, e0, w0) \<Rightarrow>
          if \<not> ok0 then (False, e0, w0)
          else case check_each sy (map CheckProg (progs c)) e0 w0 of
            (ok1, e1, w1) \<Rightarrow>
              if \<not> ok1 then (False, e1, w1)
              else case check_each sy (map CheckHeader (headers c)) e1 w1 of
                (ok2, e2, w2) \<Rightarrow>
                  if \<not> ok2 then (False, e2, w2)
                  else case check_libs sy c (libs c) e2 w2 of
                    (ok3, e3, w3) \<Rightarrow>
                      if \<not> ok3 then (False, e3, w3)
                      else check_functions sy (c_functions c) e3 None w3)"

text \<open>
  \<open>has_missing_targets\<close>: True is "missing", False is "present".  The component comes
  back with \<open>targets_found\<close> set when every check passed.
\<close>

definition has_missing_targets :: "sys \<Rightarrow> component \<Rightarrow> env \<Rightarrow> world
                                     \<Rightarrow> bool \<times> component \<times> env \<times> world" where
  "has_missing_targets sy c e w =
     (if targets_found c then (False, c, e, w)
      else
        let w1 = (if check_only c then w\<lparr>opt_no_exec := False\<rparr> else w) in
        if opt_no_exec w1 then (True, c, e, w1)
        else
          case parse_config sy c ''--cflags'' e w1 of
            (e1, w2) \<Rightarrow>
              if opt_help w2 then (True, c, e1, w2)
              else
                case run_checks sy c e1 w2 of
                  (ok, e2, w3) \<Rightarrow>
                    (let w4 = (if check_only c then w3\<lparr>opt_no_exec := True\<rparr> else w3)
                     in if ok then (False, c\<lparr>targets_found := True\<rparr>, e2, w4)
                        else (True, c, e2, w4)))"

text \<open>
  \<open>set_environment\<close>.  \<open>os.path.join\<close> of a prefix that is still \<open>None\<close> is a
  \<open>TypeError\<close>, raised before the environment is touched.  \<open>lib_dirs\<close> is the list
  \<open>lib_paths\<close> the loop over \<open>lib_path\<close> collects, \<open>prefix_env\<close> what the block for a
  component with a prefix of its own does to the environment.
\<close>

definition lib_dirs :: "world \<Rightarrow> component \<Rightarrow> path \<Rightarrow> path list" where
  "lib_dirs w c cp = filter (exists w) (map (path_join cp) (lib_path c))"

definition prefix_env :: "world \<Rightarrow> component \<Rightarrow> path \<Rightarrow> env \<Rightarrow> env" where
  "prefix_env w c cp e =
     (let ea = AppendENVPath ''PATH'' (path_join cp ''bin'') e;
          eb = append_all ''CPPPATH'' (map (path_join cp) (include_path c)) ea;
          ec = foldl (\<lambda>e full_path.
                  AppendENVPath ''LD_LIBRARY_PATH'' full_path
                    (AppendUnique ''RPATH_FULL'' full_path e)) eb (lib_dirs w c cp)
      in AppendUnique ''LINKFLAGS'' ''-Wl,--enable-new-dtags'' ec)"

definition set_environment :: "sys \<Rightarrow> component \<Rightarrow> env \<Rightarrow> string list option \<Rightarrow> world
                                 \<Rightarrow> (exn + unit) \<times> env \<times> world" where
  "set_environment sy c e needed_libs w =
     (if \<not> use_installed c \<and> component_prefix c = None then (Inl PyTypeError, e, w)
      else
        let (lib_paths, e1) =
              (case component_prefix c of
                 Some cp \<Rightarrow>
                   if \<not> use_installed c \<and> cp \<noteq> ''/usr''
                   then (lib_dirs w c cp, prefix_env w c cp e)
                   else ([], e)
               | None \<Rightarrow> ([], e));
            e2 = (if component_prefix c = Some ''/usr'' \<and> package c = None
                  then AppendUnique ''LINKFLAGS'' ''-Wl,--enable-new-dtags''
                         (AppendUnique ''RPATH'' ''/usr/lib'' e1)
                  else e1);
            e3 = append_all ''CPPDEFINES'' (c_defines c) e2
        in case parse_config sy c ''--cflags'' e3 w of
             (e4, w1) \<Rightarrow>
               (case needed_libs of
                  None \<Rightarrow> (Inr (), e4, w1)
                | Some nl \<Rightarrow>
                    (case parse_config sy c ''--libs'' e4 w1 of
                       (e5, w2) \<Rightarrow>
                         (Inr (), append_all ''LIBS'' nl (append_all ''LIBPATH'' lib_paths e5), w2))))"

text \<open>
  The probes of a component in the order the specification gives: the callback, the
  programs, the headers, the libraries, the functions of each library.
\<close>

definition all_probes :: "component \<Rightarrow> probe list" where
  "all_probes c =
     (if config_cb c then [CheckCallback] else [])
       @ map CheckProg (progs c) @ map CheckHeader (headers c) @ map CheckLib (libs c)
       @ concat (map (\<lambda>(lib, funs). map CheckFunc funs) (c_functions c))"

fun probes_of :: "event list \<Rightarrow> (probe \<times> bool) list" where
  "probes_of [] = []"
| "probes_of (Probed p ok # evs) = (p, ok) # probes_of evs"
| "probes_of (ev # evs) = probes_of evs"

fun is_pkg_config :: "event \<Rightarrow> bool" where
  "is_pkg_config (PkgConfig opts pc) = True"
| "is_pkg_config _ = False"

fun is_probe :: "event \<Rightarrow> bool" where
  "is_probe (Probed p ok) = True"
| "is_probe _ = False"

fun probe_rank :: "probe \<Rightarrow> nat" where
  "probe_rank CheckCallback = 0"
| "probe_rank (CheckProg p) = 1"
| "probe_rank (CheckHeader h) = 2"
| "probe_rank (CheckLib l) = 3"
| "probe_rank (CheckFunc f) = 4"

text \<open>
  A run of checks over \<open>ps\<close> that stops at the first failure: \<open>done\<close> lists the probes
  made with their answers.
\<close>

definition probe_events :: "(probe \<times> bool) list \<Rightarrow> event list" where
  "probe_events done = map (\<lambda>(p, ok). Probed p ok) done"

definition short_circuit :: "probe list \<Rightarrow> bool \<Rightarrow> (probe \<times> bool) list \<Rightarrow> bool" where
  "short_circuit ps ok done =
     (if ok then done = map (\<lambda>p. (p, True)) ps
      else (\<exists>before p after. ps = before @ p # after
              \<and> done = map (\<lambda>p. (p, True)) before @ [(p, False)]))"

text \<open>
  Example inputs for the component theorems: a component \<open>foo\<close> installed in the system,
  and an outside in which the program \<open>cmake\<close> is not found.
\<close>

definition example_component :: component where
  "example_component =
     \<lparr>name = ''foo'', targets_found = False, use_installed = False, build_path = None,
      prebuilt_path = None, patch_rpath = [], src_path = None, prefix_dir = None,
      component_prefix = Some ''/opt/foo'', package = None, progs = [''cmake''],
      libs = [''foo''], libs_cc = None, c_functions = [(''foo'', [''foo_init''])],
      config_cb = False, required_libs = [], required_progs = [], c_defines = [''HAVE_FOO''],
      headers = [''foo.h''], requires = [], pkgconfig = None, build_commands = [],
      retriever = None, lib_path = [''lib'', ''lib64''], include_path = [''include''],
      out_of_src_build = False, patch_path = ''/a/b/build/external'', check_only = False,
      dry_run = False\<rparr>"

definition no_cmake_sys :: sys where
  "no_cmake_sys = example_sys\<lparr>check := (\<lambda>p e w. (p \<noteq> CheckProg ''cmake'', e))\<rparr>"

text \<open>
  One environment holds what another holds: every entry of every list, and every entry
  of every variable of the process environment.
\<close>

definition env_le :: "env \<Rightarrow> env \<Rightarrow> bool" where
  "env_le e e' =
     ((\<forall>k. set (lists e k) \<subseteq> set (lists e' k)) \<and>
      (\<forall>k xs. osenv e k = Some xs \<longrightarrow> (\<exists>ys. osenv e' k = Some ys \<and> set xs \<subseteq> set ys)))"


text \<open>Two worlds with the same files, working directory and process environment.\<close>

definition same_files :: "world \<Rightarrow> world \<Rightarrow> bool" where
  "same_files w w' = (fs w' = fs w \<and> cwd w' = cwd w \<and> os_environ w' = os_environ w)"





text \<open>
  For the proofs: what an update does to one list.  \<open>list_grows\<close>: it loses no entry,
  adds no duplicate, and adds nothing to a list that holds what it adds.  \<open>list_exact\<close>:
  it leaves such a list as it is; \<open>list_dexact\<close>: it does so when the list has no
  duplicates; \<open>list_distinct\<close>: its result never has duplicates.  \<open>acts ex dex k f\<close>:
  the update \<open>f\<close> of the environment is such an update of the list \<open>k\<close>, exact when
  \<open>ex\<close>, exact on lists without duplicates when \<open>dex\<close>.
\<close>

definition list_grows :: "(string list \<Rightarrow> string list) \<Rightarrow> bool" where
  "list_grows g =
     ((\<forall>l. set l \<subseteq> set (g l)) \<and> (\<forall>l. distinct l \<longrightarrow> distinct (g l))
      \<and> (\<forall>l l'. set (g l) \<subseteq> set l' \<longrightarrow> set (g l') = set l'))"

definition list_exact :: "(string list \<Rightarrow> string list) \<Rightarrow> bool" where
  "list_exact g = (\<forall>l l'. set (g l) \<subseteq> set l' \<longrightarrow> g l' = l')"

definition list_dexact :: "(string list \<Rightarrow> string list) \<Rightarrow> bool" where
  "list_dexact g = (\<forall>l l'. set (g l) \<subseteq> set l' \<longrightarrow> distinct l' \<longrightarrow> g l' = l')"

definition list_distinct :: "(string list \<Rightarrow> string list) \<Rightarrow> bool" where
  "list_distinct g = (\<forall>l. distinct (g l))"

definition list_ok :: "bool \<Rightarrow> bool \<Rightarrow> (string list \<Rightarrow> string list) \<Rightarrow> bool" where
  "list_ok ex dex g =
     (list_grows g \<and> (list_exact g \<or> list_distinct g) \<and> (ex \<longrightarrow> list_exact g)
      \<and> (dex \<longrightarrow> list_dexact g))"

definition acts :: "bool \<Rightarrow> bool \<Rightarrow> string \<Rightarrow> (env \<Rightarrow> env) \<Rightarrow> bool" where
  "acts ex dex k f =
     ((\<exists>g. list_ok ex dex g \<and> (\<forall>e. lists (f e) k = g (lists e k)))
      \<and> (\<forall>e. osenv (f e) = osenv e \<and> scalars (f e) = scalars e))"




section \<open>The registry\<close>

text \<open>
  \<open>PreReqComponent\<close>.  \<open>reg_env\<close> is the registry's own environment \<open>__env\<close>, which is
  also the runner's; \<open>configs\<close> is the parsed configuration file, sections of options,
  absent when no file was given; \<open>prebuilt_paths\<close> and \<open>src_paths\<close> are the two caches.
  The component objects live in \<open>defined\<close>: a method that changes its component stores
  it back under its name.
\<close>

record registry =
  defined :: "string \<rightharpoonup> component"
  required :: "string \<rightharpoonup> bool"
  errors :: "string \<rightharpoonup> exn"
  reg_env :: env
  system_env :: env
  prebuilt_paths :: "string \<rightharpoonup> path option"
  src_paths :: "string \<rightharpoonup> path"
  configs :: "(string \<rightharpoonup> (string \<rightharpoonup> string)) option"
  installed :: "string list"
  build_deps :: bool
  download_deps :: bool
  prereq_prefix :: path
  reg_build_dir :: path
  build_info :: "(string \<times> string option) list"
  reg_dry_run :: bool

definition store :: "string \<Rightarrow> component \<Rightarrow> registry \<Rightarrow> registry" where
  "store nm c r = r\<lparr>defined := (defined r)(nm \<mapsto> c)\<rparr>"

text \<open>
  \<open>get_config\<close> on the \<open>configparser\<close> object: section names are taken as they are,
  option names are lower-cased when a file is read and when an option is looked up, and an
  option missing from its section is taken from the section \<open>DEFAULT\<close>, which itself is
  not a section \<open>has_section\<close> knows.  The value is returned as stored: the expansion of
  \<open>%(name)s\<close> references that \<open>configparser\<close> does on top is left out.
\<close>

definition get_config :: "registry \<Rightarrow> string \<Rightarrow> string \<Rightarrow> string option" where
  "get_config r section nm =
     (case configs r of
        None \<Rightarrow> None
      | Some cfg \<Rightarrow>
          if section = ''DEFAULT'' then None
          else
            (case cfg section of
               None \<Rightarrow> None
             | Some opts \<Rightarrow>
                 (case opts (lower nm) of
                    Some v \<Rightarrow> Some v
                  | None \<Rightarrow> (case cfg ''DEFAULT'' of None \<Rightarrow> None | Some dflt \<Rightarrow> dflt (lower nm)))))"

fun config_read :: "(string \<times> string \<times> string) list \<Rightarrow> (string \<rightharpoonup> (string \<rightharpoonup> string))
                      \<Rightarrow> (string \<rightharpoonup> (string \<rightharpoonup> string))" where
  "config_read [] cfg = cfg"
| "config_read ((section, opt, v) # rest) cfg =
     config_read rest
       (cfg(section \<mapsto> (case cfg section of None \<Rightarrow> Map.empty | Some opts \<Rightarrow> opts)(lower opt \<mapsto> v)))"

text \<open>
  \<open>load_config\<close>.  Joining a path that is \<open>None\<close> is a \<open>TypeError\<close>.
\<close>

definition load_config :: "sys \<Rightarrow> string \<Rightarrow> path option \<Rightarrow> registry \<Rightarrow> world \<Rightarrow> (exn + unit) \<times> registry" where
  "load_config sy nm p r w =
     (case get_config r ''configs'' nm of
        None \<Rightarrow> (Inr (), r)
      | Some config_path \<Rightarrow>
          (case p of
             None \<Rightarrow> (Inl PyTypeError, r)
           | Some dir \<Rightarrow>
               (let full_path = path_join dir config_path
                in (Inr (), r\<lparr>configs := map_option (config_read (read_config sy full_path w))
                                             (configs r)\<rparr>))))"

definition save_component_prefix :: "string \<Rightarrow> string option \<Rightarrow> registry \<Rightarrow> registry" where
  "save_component_prefix var v r =
     r\<lparr>reg_env := Replace var v (reg_env r), build_info := build_info r @ [(var, v)]\<rparr>"

definition get_prefixes :: "string \<Rightarrow> path option \<Rightarrow> registry
                              \<Rightarrow> (path option \<times> string option) \<times> registry" where
  "get_prefixes nm prebuilt r =
     (let pre = scalars (reg_env r) ''PREFIX'';
          comp_prefix = upper nm @ ''_PREFIX''
      in if truthy prebuilt then ((prebuilt, pre), save_component_prefix comp_prefix prebuilt r)
         else
           let target_prefix = path_join (prereq_prefix r) nm
           in ((Some target_prefix, pre), save_component_prefix comp_prefix (Some target_prefix) r))"

definition get_src_path :: "string \<Rightarrow> registry \<Rightarrow> path \<times> registry" where
  "get_src_path nm r =
     (case src_paths r nm of
        Some p \<Rightarrow> (p, r)
      | None \<Rightarrow>
          (let p = path_join (reg_build_dir r) nm
           in (p, r\<lparr>src_paths := (src_paths r)(nm \<mapsto> p)\<rparr>)))"

definition ensure_dir_exists :: "sys \<Rightarrow> path \<Rightarrow> bool \<Rightarrow> world \<Rightarrow> (exn + unit) \<times> world" where
  "ensure_dir_exists sy dirname dry w =
     (if \<not> exists w dirname then
        (if dry then (Inr (), w)
         else if \<not> makedirs_ok sy dirname w then (Inl (PyOSError ''makedirs''), w)
         else (Inr (), emit (MkDirs (abspath (cwd w) dirname))
                         (w\<lparr>fs := (fs w)(abspath (cwd w) dirname \<mapsto> Directory)\<rparr>)))
      else if \<not> isdir w dirname then (Inl (PyOSError ''Not a directory''), w)
      else (Inr (), w))"

text \<open>
  The loop of \<open>get_prebuilt_path\<close> over the alternative prefixes.  The inner loop over
  \<open>lib64\<close> and \<open>lib\<close> keeps only what its last round found.
\<close>

fun prebuilt_search :: "sys \<Rightarrow> env \<Rightarrow> component \<Rightarrow> path list \<Rightarrow> world
                          \<Rightarrow> path option \<times> component \<times> world" where
  "prebuilt_search sy renv c [] w = (None, c, w)"
| "prebuilt_search sy renv c (p # ps) w =
     (let ipath = (if exists w (path_join p ''include'') then Some (path_join p ''include'') else None);
          lpath = (if exists w (path_join p ''lib'') then Some (path_join p ''lib'') else None)
      in if ipath = None \<and> lpath = None then prebuilt_search sy renv c ps w
         else
           let e1 = (case ipath of Some i \<Rightarrow> AppendUnique ''CPPPATH'' i renv | None \<Rightarrow> renv);
               e2 = (case lpath of Some l \<Rightarrow> AppendUnique ''LIBPATH'' l e1 | None \<Rightarrow> e1)
           in case has_missing_targets sy c e2 w of
                (missing, c', e', w') \<Rightarrow>
                  if \<not> missing then (Some p, c', w') else prebuilt_search sy renv c' ps w')"

definition get_prebuilt_path :: "sys \<Rightarrow> component \<Rightarrow> string \<Rightarrow> registry \<Rightarrow> world
                                   \<Rightarrow> path option \<times> component \<times> registry \<times> world" where
  "get_prebuilt_path sy c nm r w =
     (case prebuilt_paths r nm of
        Some cached \<Rightarrow> (cached, c, r, w)
      | None \<Rightarrow>
          (let paths = (case scalars (reg_env r) ''ALT_PREFIX'' of
                          None \<Rightarrow> []
                        | Some alt \<Rightarrow> split_on (CHR '':'') alt)
           in case prebuilt_search sy (reg_env r) c paths w of
                (found, c', w') \<Rightarrow>
                  (found, c', r\<lparr>prebuilt_paths := (prebuilt_paths r)(nm \<mapsto> found)\<rparr>, w')))"

text \<open>
  \<open>_Component.configure\<close>, for the component stored under \<open>nm\<close>.  The fields are
  assigned before \<open>ensure_dir_exists\<close> can raise, so the component is stored first.
\<close>

definition configure :: "sys \<Rightarrow> string \<Rightarrow> registry \<Rightarrow> world \<Rightarrow> (exn + unit) \<times> registry \<times> world" where
  "configure sy nm r w =
     (let c = the (defined r nm) in
      case (if retriever c = None then (Some ''/usr'', c, r, w)
            else get_prebuilt_path sy c (name c) r w) of
        (prebuilt, c1, r1, w1) \<Rightarrow>
          (case get_prefixes (name c1) prebuilt r1 of
             ((comp_prefix, pre), r2) \<Rightarrow>
               (case (if retriever c1 \<noteq> None
                      then (case get_src_path (name c1) r2 of (p, r3) \<Rightarrow> (Some p, r3))
                      else (None, r2)) of
                  (src, r3) \<Rightarrow>
                    (let c2 = c1\<lparr>prebuilt_path := prebuilt, component_prefix := comp_prefix,
                                  prefix_dir := pre, src_path := src, build_path := src\<rparr>
                     in if out_of_src_build c2 then
                          (let bp = path_join (reg_build_dir r3) (name c2 @ ''.build'');
                               c3 = c2\<lparr>build_path := Some bp\<rparr>
                           in case ensure_dir_exists sy bp (dry_run c3) w1 of
                                (res, w2) \<Rightarrow> (res, store nm c3 r3, w2))
                        else (Inr (), store nm c2 r3, w1)))))"

definition is_installed :: "sys \<Rightarrow> registry \<Rightarrow> component \<Rightarrow> string list option \<Rightarrow> world
                              \<Rightarrow> (exn + bool) \<times> component \<times> world" where
  "is_installed sy r c needed_libs w =
     (if \<not> use_installed c then (Inr False, c, w)
      else
        case set_environment sy c (system_env r) needed_libs w of
          (Inl e, new_env, w1) \<Rightarrow> (Inl e, c, w1)
        | (Inr u, new_env, w1) \<Rightarrow>
            (case has_missing_targets sy c new_env w1 of
               (missing, c', e', w2) \<Rightarrow>
                 if missing then (Inr False, c'\<lparr>use_installed := False\<rparr>, w2)
                 else (Inr True, c', w2)))"

definition check_installed_package :: "sys \<Rightarrow> component \<Rightarrow> env \<Rightarrow> world
                                         \<Rightarrow> (exn + unit) \<times> component \<times> env \<times> world" where
  "check_installed_package sy c e w =
     (case has_missing_targets sy c e w of
        (missing, c', e', w') \<Rightarrow>
          if missing then
            (if dry_run c' then (Inr (), c', e', w')
             else (case package c' of
                     None \<Rightarrow> (Inl (MissingTargets (name c') (Some (name c'))), c', e', w')
                   | Some pkg \<Rightarrow> (Inl (MissingTargets (name c') (Some pkg)), c', e', w')))
          else (Inr (), c', e', w'))"

definition has_missing_system_deps :: "sys \<Rightarrow> component \<Rightarrow> env \<Rightarrow> world \<Rightarrow> bool \<times> env \<times> world" where
  "has_missing_system_deps sy c e w =
     (let w1 = (if check_only c then w\<lparr>opt_no_exec := False\<rparr> else w) in
      if opt_no_exec w1 then (False, e, w1)
      else if opt_help w1 then (True, e, w1)
      else
        case check_each sy (map CheckLib (required_libs c)) e w1 of
          (ok1, e1, w2) \<Rightarrow>
            if \<not> ok1 then (True, e1, if check_only c then w2\<lparr>opt_no_exec := True\<rparr> else w2)
            else case check_each sy (map CheckProg (required_progs c)) e1 w2 of
              (ok2, e2, w3) \<Rightarrow>
                (\<not> ok2, e2, if check_only c then w3\<lparr>opt_no_exec := True\<rparr> else w3))"

section \<open>Retrieval, build and require\<close>

fun is_substring :: "string \<Rightarrow> string \<Rightarrow> bool" where
  "is_substring p [] = (p = [])"
| "is_substring p (x # xs) = (startswith (x # xs) p \<or> is_substring p xs)"

definition digit :: "nat \<Rightarrow> char" where
  "digit n = char_of (48 + n)"

function decimal :: "nat \<Rightarrow> string" where
  "decimal n = (if n < 10 then [digit n] else decimal (n div 10) @ [digit (n mod 10)])"
  by pat_completeness auto
termination
  by (relation "measure (\<lambda>n. n)") auto

fun dict_set :: "'k \<Rightarrow> 'v \<Rightarrow> ('k \<times> 'v) list \<Rightarrow> ('k \<times> 'v) list" where
  "dict_set k v [] = [(k, v)]"
| "dict_set k v ((k', v') # rest) =
     (if k' = k then (k, v) # rest else (k', v') # dict_set k v rest)"

fun resolve_patches_loop :: "sys \<Rightarrow> env \<Rightarrow> component \<Rightarrow> string list \<Rightarrow> nat
                               \<Rightarrow> (path \<times> string option) list \<Rightarrow> world
                               \<Rightarrow> (exn + (path \<times> string option) list) \<times> world" where
  "resolve_patches_loop sy renv c [] patchnum patches w = (Inr patches, w)"
| "resolve_patches_loop sy renv c (raw0 # raws) patchnum patches w =
     (case (if CHR ''^'' \<in> set raw0
            then (case split_on (CHR ''^'') raw0 of
                    [a, b] \<Rightarrow> Inr (Some a, b)
                  | _ \<Rightarrow> Inl PyValueError)
            else Inr (None, raw0)) of
        Inl e \<Rightarrow> (Inl e, w)
      | Inr (patch_subdir, raw) \<Rightarrow>
          if \<not> is_substring ''https://'' raw
          then resolve_patches_loop sy renv c raws patchnum (dict_set raw patch_subdir patches) w
          else
            let patch_name = name c @ ''_patch_'' @ decimal patchnum;
                patch_file = path_join (patch_path c) patch_name;
                patches' = dict_set patch_file patch_subdir patches
            in if exists w patch_file
               then resolve_patches_loop sy renv c raws (patchnum + 1) patches' w
               else
                 case run_commands sy renv
                        [[''curl'', ''-sSfL'', ''--retry'', ''10'', ''--retry-max-time'', ''60'',
                          ''-o'', patch_file, raw]] None None w of
                   (Inl e, w') \<Rightarrow> (Inl e, w')
                 | (Inr ok, w') \<Rightarrow>
                     if \<not> ok then (Inl (BuildFailure raw), w')
                     else resolve_patches_loop sy renv c raws (patchnum + 1) patches' w')"

definition resolve_patches :: "sys \<Rightarrow> registry \<Rightarrow> component \<Rightarrow> world
                                 \<Rightarrow> (exn + (path \<times> string option) list) \<times> world" where
  "resolve_patches sy r c w =
     (case get_config r ''patch_versions'' (name c) of
        None \<Rightarrow> (Inr [], w)
      | Some patchstr \<Rightarrow>
          resolve_patches_loop sy (reg_env r) c (split_on (CHR '','') patchstr) 1 [] w)"

text \<open>
  \<open>_Component.get\<close>.  A source path that is \<open>None\<close> is a \<open>TypeError\<close> in either
  retriever.  The git retriever keeps the branch and the commit it checked out.
\<close>

definition component_get :: "sys \<Rightarrow> registry \<Rightarrow> component \<Rightarrow> world
                               \<Rightarrow> (exn + unit) \<times> component \<times> world" where
  "component_get sy r c w =
     (if truthy (prebuilt_path c) then (Inr (), c, w)
      else
        let br = get_config r ''branches'' (name c);
            sha = get_config r ''commit_versions'' (name c)
        in case retriever c of
             None \<Rightarrow> (Inr (), c, w)
           | Some rt \<Rightarrow>
               if \<not> download_deps r then (Inl (DownloadRequired (name c)), c, w)
               else
                 case resolve_patches sy r c w of
                   (Inl e, w1) \<Rightarrow> (Inl e, c, w1)
                 | (Inr patches, w1) \<Rightarrow>
                     (case src_path c of
                        None \<Rightarrow> (Inl PyTypeError, c, w1)
                      | Some src \<Rightarrow>
                          (case rt of
                             Git g \<Rightarrow>
                               (case git_get sy (reg_env r) g src
                                       \<lparr>kw_commit_sha = sha, kw_branch = br, kw_patches = Some patches\<rparr>
                                       w1 of
                                  (res, g', w2) \<Rightarrow> (res, c\<lparr>retriever := Some (Git g')\<rparr>, w2))
                           | Web wr \<Rightarrow>
                               (case web_get sy (reg_env r) wr src w1 of
                                  (res, w2) \<Rightarrow> (res, c, w2)))))"

text \<open>
  \<open>shutil.rmtree\<close> followed by \<open>os.mkdir\<close>: everything below the path goes, the
  directory itself stays.  A path that does not exist is an \<open>OSError\<close>.
\<close>

definition rm_old_dir :: "component \<Rightarrow> path option \<Rightarrow> world \<Rightarrow> (exn + unit) \<times> world" where
  "rm_old_dir c p w =
     (if dry_run c then (Inr (), w)
      else case p of
          None \<Rightarrow> (Inl PyTypeError, w)
        | Some dir \<Rightarrow>
            if \<not> exists w dir then (Inl (PyOSError ''FileNotFoundError''), w)
            else
              (let d = abspath (cwd w) dir
               in (Inr (), emit (MkDirs d) (emit (RmTree d)
                     (w\<lparr>fs := (\<lambda>q. if q = d then Some Directory
                                      else if startswith q (d @ ''/'') then None
                                      else fs w q)\<rparr>)))))"

definition modify_prefix :: "string \<Rightarrow> registry \<Rightarrow> world \<Rightarrow> (exn + unit) \<times> registry" where
  "modify_prefix nm r w =
     (let comp_def = the (defined r nm) in
      if truthy (package comp_def) then (Inr (), r)
      else if truthy (src_path comp_def) \<and> \<not> exists w (the (src_path comp_def))
              \<and> \<not> exists w (path_join (prereq_prefix r) (name comp_def))
      then (case scalars (reg_env r) (upper (name comp_def) @ ''_PREFIX'') of
              None \<Rightarrow> (Inl PyTypeError, r)
            | Some p \<Rightarrow>
                if \<not> exists w p
                then (Inr (), save_component_prefix (upper (name comp_def) @ ''_PREFIX'') (Some ''/usr'') r)
                else (Inr (), r))
      else (Inr (), r))"

text \<open>\<open>patch_rpaths\<close>: the first existing one of \<open>lib64\<close> and \<open>lib\<close> under a path.\<close>

definition first_libdir :: "world \<Rightarrow> path \<Rightarrow> string option" where
  "first_libdir w p =
     (if exists w (path_join p ''lib64'') then Some ''lib64''
      else if exists w (path_join p ''lib'') then Some ''lib'' else None)"

fun rpath_prereqs :: "registry \<Rightarrow> world \<Rightarrow> path \<Rightarrow> string list \<Rightarrow> string list \<times> string list
                        \<Rightarrow> exn + (string list \<times> string list)" where
  "rpath_prereqs r w comp_path [] (rpath, norigin) = Inr (rpath, norigin)"
| "rpath_prereqs r w comp_path (prereq # rest) (rpath, norigin) =
     (let rootpath = path_join (path_join comp_path ''..'') prereq in
      if \<not> exists w rootpath then
        (case defined r prereq of
           None \<Rightarrow> Inl (PyException ''KeyError'')
         | Some dep \<Rightarrow>
             (let subpath = component_prefix dep;
                  found = (if truthy subpath \<and> \<not> startswith (the subpath) ''/usr''
                           then filter (exists w)
                                  (map (path_join (the subpath)) [''lib64'', ''lib''])
                           else [])
              in rpath_prereqs r w comp_path rest (rpath @ found, norigin)))
      else
        (case first_libdir w rootpath of
           None \<Rightarrow> rpath_prereqs r w comp_path rest (rpath, norigin)
         | Some libdir \<Rightarrow>
             rpath_prereqs r w comp_path rest
               (rpath @ [''$$ORIGIN/../../'' @ prereq @ ''/'' @ libdir],
                norigin @ [normpath (path_join rootpath libdir)])))"

fun patch_files :: "sys \<Rightarrow> env \<Rightarrow> string list \<Rightarrow> path \<Rightarrow> string list \<Rightarrow> world
                      \<Rightarrow> (exn + unit) \<times> world" where
  "patch_files sy renv rpath dir [] w = (Inr (), w)"
| "patch_files sy renv rpath dir (lib # rest) w =
     (if \<not> endswith lib ''.so'' then patch_files sy renv rpath dir rest w
      else
        let full_lib = path_join dir lib;
            cmd = [''patchelf'', ''--set-rpath'', join_with '':'' rpath, full_lib]
        in case run_commands sy renv [cmd] None None w of
             (Inl e, w') \<Rightarrow> (Inl e, w')
           | (Inr ok, w') \<Rightarrow> patch_files sy renv rpath dir rest w')"

fun patch_folders :: "sys \<Rightarrow> env \<Rightarrow> string list \<Rightarrow> path \<Rightarrow> string list \<Rightarrow> world
                        \<Rightarrow> (exn + unit) \<times> world" where
  "patch_folders sy renv rpath comp_path [] w = (Inr (), w)"
| "patch_folders sy renv rpath comp_path (folder # rest) w =
     (let dir = path_join comp_path folder in
      if \<not> exists w dir then (Inl (PyOSError ''FileNotFoundError''), w)
      else case patch_files sy renv rpath dir (listdir sy dir w) w of
             (Inl e, w') \<Rightarrow> (Inl e, w')
           | (Inr u, w') \<Rightarrow> patch_folders sy renv rpath comp_path rest w')"

definition patch_rpaths :: "sys \<Rightarrow> registry \<Rightarrow> component \<Rightarrow> world \<Rightarrow> (exn + unit) \<times> world" where
  "patch_rpaths sy r c w =
     (if \<not> truthy (component_prefix c) \<or> startswith (the (component_prefix c)) ''/usr''
      then (Inr (), w)
      else
        let comp_path = the (component_prefix c) in
        if \<not> exists w comp_path then (Inr (), w)
        else
          let norigin = (case first_libdir w comp_path of
                           None \<Rightarrow> []
                         | Some libdir \<Rightarrow> [normpath (path_join comp_path libdir)])
          in case rpath_prereqs r w comp_path (requires c) ([''$$ORIGIN''], norigin) of
               Inl e \<Rightarrow> (Inl e, w)
             | Inr (rpath, norigin') \<Rightarrow>
                 patch_folders sy (reg_env r) (rpath @ norigin') comp_path (patch_rpath c) w)"

text \<open>
  \<open>build\<close> and \<open>require\<close> call each other.  Each is written over the other as a
  parameter (\<open>build_with\<close> over the require it calls, \<open>require_loop\<close> over the build it
  calls), and \<open>require\<close> and \<open>build\<close> tie the two together with a bound on the nesting
  depth.  \<open>None\<close> is a run that needs a deeper nesting than the bound allows.
\<close>

record require_kw =
  headers_only :: bool
  libs_kw :: "string \<rightharpoonup> string list option"

type_synonym outcome = "((exn + bool) \<times> env \<times> registry \<times> world) option"

type_synonym require_fn = "string list \<Rightarrow> require_kw \<Rightarrow> env \<Rightarrow> registry \<Rightarrow> world \<Rightarrow> outcome"

type_synonym build_fn = "string \<Rightarrow> env \<Rightarrow> string list option \<Rightarrow> registry \<Rightarrow> world \<Rightarrow> outcome"

definition no_kw :: require_kw where
  "no_kw = \<lparr>headers_only = False, libs_kw = Map.empty\<rparr>"

definition needed_libs_none_kw :: require_kw where
  "needed_libs_none_kw = \<lparr>headers_only = False, libs_kw = [''needed_libs'' \<mapsto> None]\<rparr>"

text \<open>
  The block of \<open>build\<close> under \<open>if build_dep:\<close>, on the copy of the system environment.
  Its result is \<open>changes\<close>.
\<close>

definition build_source :: "require_fn \<Rightarrow> sys \<Rightarrow> string \<Rightarrow> env \<Rightarrow> registry \<Rightarrow> world \<Rightarrow> outcome" where
  "build_source req sy nm envcopy r w =
     (let c = the (defined r nm) in
      case has_missing_system_deps sy c (system_env r) w of
        (missing_deps, se, w1) \<Rightarrow>
          (let r1 = r\<lparr>system_env := se\<rparr> in
           if missing_deps then Some (Inl (MissingSystemLibs (name c)), envcopy, r1, w1)
           else
             case component_get sy r1 c w1 of
               (Inl e, c2, w2) \<Rightarrow> Some (Inl e, envcopy, store nm c2 r1, w2)
             | (Inr u, c2, w2) \<Rightarrow>
                 (case load_config sy (name c2) (src_path c2) (store nm c2 r1) w2 of
                    (Inl e, r3) \<Rightarrow> Some (Inl e, envcopy, r3, w2)
                  | (Inr u, r3) \<Rightarrow>
                      (case (if requires c2 \<noteq> []
                             then (case req (requires c2) needed_libs_none_kw envcopy r3 w2 of
                                     None \<Rightarrow> None
                                   | Some (Inl e, ec, r4, w4) \<Rightarrow> Some (Inl e, ec, r4, w4)
                                   | Some (Inr ch, ec, r4, w4) \<Rightarrow>
                                       (let c4 = the (defined r4 nm) in
                                        case set_environment sy c4 ec (Some (libs c4)) w4 of
                                          (Inl e, ec', w5) \<Rightarrow> Some (Inl e, ec', r4, w5)
                                        | (Inr u, ec', w5) \<Rightarrow> Some (Inr ch, ec', r4, w5)))
                             else Some (Inr False, envcopy, r3, w2)) of
                         None \<Rightarrow> None
                       | Some (Inl e, ec, r5, w5) \<Rightarrow> Some (Inl e, ec, r5, w5)
                       | Some (Inr ch, ec, r5, w5) \<Rightarrow>
                           (let c5 = the (defined r5 nm) in
                            case ensure_dir_exists sy (prereq_prefix r5) (dry_run c5) w5 of
                              (Inl e, w6) \<Rightarrow> Some (Inl e, ec, r5, w6)
                            | (Inr u, w6) \<Rightarrow>
                                (case (if out_of_src_build c5 then rm_old_dir c5 (build_path c5) w6
                                       else (Inr (), w6)) of
                                   (Inl e, w7) \<Rightarrow> Some (Inl e, ec, r5, w7)
                                 | (Inr u, w7) \<Rightarrow>
                                     (case run_commands sy (reg_env r5) (build_commands c5)
                                             (build_path c5) (Some ec) w7 of
                                        (Inl e, w8) \<Rightarrow> Some (Inl e, ec, r5, w8)
                                      | (Inr ok, w8) \<Rightarrow>
                                          if \<not> ok then Some (Inl (BuildFailure (name c5)), ec, r5, w8)
                                          else Some (Inr True, ec, r5, w8))))))))"

text \<open>
  The end of \<open>build\<close>: the prerequisites are required again, the environment is set once
  more, the RPATHs are patched when something changed, and the targets are verified.
\<close>

definition build_finish :: "require_fn \<Rightarrow> sys \<Rightarrow> string \<Rightarrow> bool \<Rightarrow> env \<Rightarrow> registry \<Rightarrow> world \<Rightarrow> outcome" where
  "build_finish req sy nm changes envcopy r w =
     (case (if requires (the (defined r nm)) \<noteq> []
            then req (requires (the (defined r nm))) needed_libs_none_kw envcopy r w
            else Some (Inr False, envcopy, r, w)) of
        None \<Rightarrow> None
      | Some (Inl e, ec, r1, w1) \<Rightarrow> Some (Inl e, ec, r1, w1)
      | Some (Inr u, ec, r1, w1) \<Rightarrow>
          (let c1 = the (defined r1 nm) in
           case set_environment sy c1 ec (Some (libs c1)) w1 of
             (Inl e, ec2, w2) \<Rightarrow> Some (Inl e, ec2, r1, w2)
           | (Inr u, ec2, w2) \<Rightarrow>
               (case (if changes then patch_rpaths sy r1 c1 w2 else (Inr (), w2)) of
                  (Inl e, w3) \<Rightarrow> Some (Inl e, ec2, r1, w3)
                | (Inr u, w3) \<Rightarrow>
                    (case has_missing_targets sy c1 ec2 w3 of
                       (missing, c4, ec4, w4) \<Rightarrow>
                         if missing \<and> \<not> dry_run c4
                         then Some (Inl (MissingTargets (name c4) None), ec4, store nm c4 r1, w4)
                         else Some (Inr changes, ec4, store nm c4 r1, w4)))))"

text \<open>
  \<open>_Component.build\<close> for the component stored under \<open>nm\<close>; \<open>env\<close> is the caller's
  environment, which only \<open>_check_user_options\<close> touches.
\<close>

definition build_with :: "require_fn \<Rightarrow> sys \<Rightarrow> build_fn" where
  "build_with req sy nm env needed_libs r w =
     (let c = the (defined r nm); envcopy = system_env r in
      if opt_help w then
        (case (if requires c \<noteq> [] then req (requires c) no_kw env r w
               else Some (Inr False, env, r, w)) of
           None \<Rightarrow> None
         | Some (Inl e, env1, r1, w1) \<Rightarrow> Some (Inl e, env1, r1, w1)
         | Some (Inr u, env1, r1, w1) \<Rightarrow> Some (Inr True, env1, r1, w1))
      else
        case set_environment sy c env needed_libs w of
          (Inl e, env1, w1) \<Rightarrow> Some (Inl e, env1, r, w1)
        | (Inr u, env1, w1) \<Rightarrow>
            if opt_clean w1 then Some (Inr True, env1, r, w1)
            else
              case set_environment sy c envcopy (Some (libs c)) w1 of
                (Inl e, ec1, w2) \<Rightarrow> Some (Inl e, env1, r, w2)
              | (Inr u, ec1, w2) \<Rightarrow>
                  if truthy (prebuilt_path c) then
                    (case check_installed_package sy c ec1 w2 of
                       (Inl e, c3, ec3, w3) \<Rightarrow> Some (Inl e, env1, store nm c3 r, w3)
                     | (Inr u, c3, ec3, w3) \<Rightarrow> Some (Inr False, env1, store nm c3 r, w3))
                  else
                    (let build_dep0 =
                           (build_deps r \<and> ''all'' \<notin> set (installed r) \<and> name c \<notin> set (installed r)
                            \<and> \<not> (truthy (component_prefix c) \<and> exists w2 (the (component_prefix c))))
                     in case (if build_dep0 \<and> \<not> truthy (package c) then (True, False, c, ec1, w2)
                              else case has_missing_targets sy c ec1 w2 of
                                     (missing, c3, ec3, w3) \<Rightarrow> (build_dep0 \<and> missing, missing, c3, ec3, w3)) of
                          (build_dep, missing_targets, c3, ec3, w3) \<Rightarrow>
                            (let r3 = store nm c3 r in
                             case (if build_dep then build_source req sy nm ec3 r3 w3
                                   else if missing_targets \<and> \<not> dry_run c3
                                   then Some (Inl (BuildRequired (name c3)), ec3, r3, w3)
                                   else Some (Inr False, ec3, r3, w3)) of
                               None \<Rightarrow> None
                             | Some (Inl e, ec4, r4, w4) \<Rightarrow> Some (Inl e, env1, r4, w4)
                             | Some (Inr changes, ec4, r4, w4) \<Rightarrow>
                                 (case build_finish req sy nm changes ec4 r4 w4 of
                                    None \<Rightarrow> None
                                  | Some (res, ec5, r5, w5) \<Rightarrow> Some (res, env1, r5, w5)))))"

text \<open>
  The loop of \<open>require\<close> over the component names, with \<open>changes\<close> so far.  The
  exception of the \<open>try\<close> block is stored in \<open>errors\<close> and raised again.
\<close>

definition try_build :: "build_fn \<Rightarrow> sys \<Rightarrow> string \<Rightarrow> string list option \<Rightarrow> env \<Rightarrow> registry \<Rightarrow> world
                           \<Rightarrow> outcome" where
  "try_build bld sy cname needed_libs env r w =
     (case configure sy cname r w of
        (Inl e, r1, w1) \<Rightarrow> Some (Inl e, env, r1, w1)
      | (Inr u, r1, w1) \<Rightarrow>
          (case bld cname env needed_libs r1 w1 of
             None \<Rightarrow> None
           | Some (Inl e, env2, r2, w2) \<Rightarrow> Some (Inl e, env2, r2, w2)
           | Some (Inr built, env2, r2, w2) \<Rightarrow>
               (case (if built then (Inr (), r2\<lparr>required := (required r2)(cname \<mapsto> False)\<rparr>)
                      else modify_prefix cname r2 w2) of
                  (Inl e, r3) \<Rightarrow> Some (Inl e, env2, r3, w2)
                | (Inr u, r3) \<Rightarrow>
                    (case set_environment sy (the (defined r3 cname)) env2 needed_libs w2 of
                       (Inl e, env4, w4) \<Rightarrow> Some (Inl e, env4, r3, w4)
                     | (Inr u, env4, w4) \<Rightarrow> Some (Inr built, env4, r3, w4)))))"

fun require_loop :: "build_fn \<Rightarrow> sys \<Rightarrow> require_kw \<Rightarrow> string list \<Rightarrow> bool \<Rightarrow> env \<Rightarrow> registry
                       \<Rightarrow> world \<Rightarrow> outcome" where
  "require_loop bld sy kw [] changes env r w = Some (Inr changes, env, r, w)"
| "require_loop bld sy kw (cname # cnames) changes env r w =
     (case defined r cname of
        None \<Rightarrow> Some (Inl (MissingDefinition cname), env, r, w)
      | Some c0 \<Rightarrow>
          (case errors r cname of
             Some e \<Rightarrow> Some (Inl e, env, r, w)
           | None \<Rightarrow>
               (let needed_libs =
                      (if headers_only kw then None
                       else (case libs_kw kw (cname @ ''_libs'') of
                               Some v \<Rightarrow> v
                             | None \<Rightarrow> Some (libs c0)))
                in case required r cname of
                     Some flag \<Rightarrow>
                       if opt_help w then require_loop bld sy kw cnames changes env r w
                       else
                         (case set_environment sy c0 env needed_libs w of
                            (Inl e, env1, w1) \<Rightarrow> Some (Inl e, env1, r, w1)
                          | (Inr u, env1, w1) \<Rightarrow>
                              if opt_clean w1 then require_loop bld sy kw cnames changes env1 r w1
                              else require_loop bld sy kw cnames (changes \<or> flag) env1 r w1)
                   | None \<Rightarrow>
                       (let r0 = r\<lparr>required := (required r)(cname \<mapsto> False)\<rparr> in
                        case is_installed sy r0 c0 needed_libs w of
                          (Inl e, c1, w1) \<Rightarrow> Some (Inl e, env, store cname c1 r0, w1)
                        | (Inr True, c1, w1) \<Rightarrow>
                            require_loop bld sy kw cnames changes env (store cname c1 r0) w1
                        | (Inr False, c1, w1) \<Rightarrow>
                            (case try_build bld sy cname needed_libs env (store cname c1 r0) w1 of
                               None \<Rightarrow> None
                             | Some (Inl error, env2, r2, w2) \<Rightarrow>
                                 Some (Inl error, env2, r2\<lparr>errors := (errors r2)(cname \<mapsto> error)\<rparr>, w2)
                             | Some (Inr built, env2, r2, w2) \<Rightarrow>
                                 require_loop bld sy kw cnames (changes \<or> built) env2 r2 w2)))))"

primrec require :: "nat \<Rightarrow> sys \<Rightarrow> require_fn" where
  "require 0 sy = (\<lambda>cnames kw env r w.
      require_loop (\<lambda>nm env needed_libs r w. None) sy kw cnames False env r w)"
| "require (Suc depth) sy = (\<lambda>cnames kw env r w.
      require_loop (build_with (require depth sy) sy) sy kw cnames False env r w)"

definition build :: "nat \<Rightarrow> sys \<Rightarrow> build_fn" where
  "build depth sy = build_with (require depth sy) sy"

section \<open>What a require keeps\<close>

text \<open>
  The events of checking and configuring: a configure probe, a \<open>pkg-config\<close> query, a
  directory made by \<open>ensure_dir_exists\<close>.  No command, download, extraction or removal
  is one.
\<close>

fun is_check :: "event \<Rightarrow> bool" where
  "is_check (Probed p ok) = True"
| "is_check (PkgConfig opts pc) = True"
| "is_check (MkDirs d) = True"
| "is_check _ = False"

text \<open>
  \<open>checks_only w w'\<close>: from \<open>w\<close> to \<open>w'\<close> only such events were added, and the help and
  clean options are what they were.
\<close>

definition checks_only :: "world \<Rightarrow> world \<Rightarrow> bool" where
  "checks_only w w' = (grows is_check w w' \<and> opt_help w' = opt_help w \<and> opt_clean w' = opt_clean w)"

text \<open>
  The two fields of a component that decide whether \<open>set_environment\<close> can raise, and
  the bookkeeping of the registry: the required names, the recorded errors, and these
  fields of every defined component.
\<close>

definition key_fields :: "component \<Rightarrow> bool \<times> path option" where
  "key_fields c = (use_installed c, component_prefix c)"

definition keys :: "registry \<Rightarrow> string \<rightharpoonup> bool \<times> path option" where
  "keys r = (\<lambda>k. map_option key_fields (defined r k))"

definition book :: "registry \<Rightarrow> (string \<rightharpoonup> bool) \<times> (string \<rightharpoonup> exn) \<times> (string \<rightharpoonup> bool \<times> path option)" where
  "book r = (required r, errors r, keys r)"

text \<open>
  \<open>settled r\<close>: every component that is required and has no recorded error is used as
  installed or has its prefix, so that setting its environment does not raise.  It holds
  when nothing is required yet, and \<open>require\<close> keeps it.
\<close>

definition settled :: "registry \<Rightarrow> bool" where
  "settled r = (\<forall>nm. nm \<in> dom (required r) \<longrightarrow> nm \<notin> dom (errors r) \<longrightarrow>
                  (case keys r nm of None \<Rightarrow> True | Some (inst, pre) \<Rightarrow> inst \<or> pre \<noteq> None))"

definition is_ok :: "exn + 'a \<Rightarrow> bool" where
  "is_ok res = (case res of Inl e \<Rightarrow> False | Inr x \<Rightarrow> True)"

text \<open>
  \<open>reg_post r res r'\<close>: what a \<open>require\<close> or a \<open>build\<close> that went from \<open>r\<close> to \<open>r'\<close> with
  result \<open>res\<close> keeps: the defined names, the names already required, \<open>settled\<close>, and
  the recorded errors unless it raised.  \<open>fits N r\<close>: fewer than \<open>N\<close> defined names are
  not required yet.
\<close>

definition reg_post :: "registry \<Rightarrow> exn + bool \<Rightarrow> registry \<Rightarrow> bool" where
  "reg_post r res r' =
     (dom (keys r') = dom (keys r) \<and> dom (required r) \<subseteq> dom (required r')
      \<and> (settled r \<longrightarrow> settled r') \<and> (is_ok res \<longrightarrow> errors r' = errors r))"

definition fits :: "nat \<Rightarrow> registry \<Rightarrow> bool" where
  "fits N r = (finite (dom (keys r)) \<and> card (dom (keys r) - dom (required r)) < N)"

definition outcome_ok :: "nat \<Rightarrow> registry \<Rightarrow> outcome \<Rightarrow> bool" where
  "outcome_ok N r out =
     (case out of
        None \<Rightarrow> \<not> fits N r
      | Some (res, env', r', w') \<Rightarrow> reg_post r res r')"

text \<open>Example inputs for the registry theorems: one component, nothing required yet.\<close>

definition example_registry :: registry where
  "example_registry =
     \<lparr>defined = [''foo'' \<mapsto> example_component], required = Map.empty, errors = Map.empty,
      reg_env = example_env, system_env = example_env, prebuilt_paths = Map.empty,
      src_paths = Map.empty, configs = None, installed = [], build_deps = False,
      download_deps = False, prereq_prefix = ''/opt'', reg_build_dir = ''/a/b/build'',
      build_info = [], reg_dry_run = False\<rparr>"


section \<open>Traces\<close>

lemma grows_refl [simp]: "grows P w w"
  by (simp add: grows_def)

lemma grows_trans: "grows P w w1 \<Longrightarrow> grows P w1 w2 \<Longrightarrow> grows P w w2"
  by (auto simp: grows_def)

lemma grows_mono: "grows P w w' \<Longrightarrow> (\<And>e. P e \<Longrightarrow> Q e) \<Longrightarrow> grows Q w w'"
  by (auto simp: grows_def list_all_iff)

lemma grows_emit: "P ev \<Longrightarrow> grows P w (emit ev w)"
  by (simp add: grows_def emit_def)

lemma grows_emit_trans: "P ev \<Longrightarrow> grows P (emit ev w) w' \<Longrightarrow> grows P w w'"
  by (auto simp: grows_def emit_def)

lemma grows_first:
  "trace w1 = trace w @ ev # evs \<Longrightarrow> grows P w1 w' \<Longrightarrow> \<exists>evs'. trace w' = trace w @ ev # evs'"
  by (auto simp: grows_def)

section \<open>The runner's trace\<close>

lemma run_loop_commands:
  "run_loop sy renv dry subdir penv cmds w = (b, w') \<Longrightarrow>
     \<exists>new. trace w' = trace w @ new \<and> list_all is_command new"
proof (induction cmds arbitrary: w)
  case Nil
  then show ?case by simp
next
  case (Cons c cs)
  let ?cmd = "build_cmd sy renv (opt_num_jobs w) c"
  show ?case
  proof (cases dry)
    case True
    with Cons.prems have "run_loop sy renv dry subdir penv cs (emit (WouldRun ?cmd) w) = (b, w')"
      by (simp add: Let_def)
    from Cons.IH [OF this] show ?thesis
      by (auto simp: emit_def)
  next
    case False
    show ?thesis
    proof (cases "call sy ?cmd subdir penv w")
      case (Inl e)
      with Cons.prems False show ?thesis
        by (auto simp: Let_def emit_def)
    next
      case (Inr a)
      obtain rc fs' where c: "call sy ?cmd subdir penv w = Inr (rc, fs')"
        using Inr by (cases a) simp
      show ?thesis
      proof (cases "rc = 0")
        case True
        with Cons.prems False c
        have "run_loop sy renv dry subdir penv cs (emit (Exec ?cmd subdir) (w\<lparr>fs := fs'\<rparr>)) = (b, w')"
          by (simp add: Let_def)
        from Cons.IH [OF this] show ?thesis
          by (auto simp: emit_def)
      next
        case nz: False
        with Cons.prems False c show ?thesis
          by (auto simp: Let_def emit_def)
      qed
    qed
  qed
qed

lemma run_loop_first:
  assumes "run_loop sy renv dry subdir penv (c # cs) w = (b, w')"
  shows "\<exists>evs. trace w' = trace w @ (if dry then WouldRun (build_cmd sy renv (opt_num_jobs w) c)
                                  else Exec (build_cmd sy renv (opt_num_jobs w) c) subdir) # evs"
proof -
  let ?cmd = "build_cmd sy renv (opt_num_jobs w) c"
  show ?thesis
  proof (cases dry)
    case True
    with assms have "run_loop sy renv dry subdir penv cs (emit (WouldRun ?cmd) w) = (b, w')"
      by (simp add: Let_def)
    from run_loop_commands [OF this] True show ?thesis
      by (auto simp: emit_def)
  next
    case False
    show ?thesis
    proof (cases "call sy ?cmd subdir penv w")
      case (Inl e)
      with assms False show ?thesis
        by (auto simp: Let_def emit_def)
    next
      case (Inr a)
      obtain rc fs' where c: "call sy ?cmd subdir penv w = Inr (rc, fs')"
        using Inr by (cases a) simp
      show ?thesis
      proof (cases "rc = 0")
        case True
        with assms False c
        have "run_loop sy renv dry subdir penv cs (emit (Exec ?cmd subdir) (w\<lparr>fs := fs'\<rparr>)) = (b, w')"
          by (simp add: Let_def)
        from run_loop_commands [OF this] False show ?thesis
          by (auto simp: emit_def)
      next
        case nz: False
        with assms False c show ?thesis
          by (auto simp: Let_def emit_def)
      qed
    qed
  qed
qed

lemma run_commands_first:
  assumes "runner_initialized w" "run_commands sy renv (c # cs) subdir envo w = (res, w')"
  shows "\<exists>evs. trace w' = trace w @ command_event sy renv w c subdir # evs"
proof -
  let ?penv = "osenv (case envo of Some e \<Rightarrow> e | None \<Rightarrow> renv)"
  obtain b w1 where r: "run_loop sy renv (runner_dry_run w) subdir ?penv (c # cs) w = (b, w1)"
    by (cases "run_loop sy renv (runner_dry_run w) subdir ?penv (c # cs) w")
  with assms have "w' = w1"
    by (simp add: run_commands_def Let_def del: run_loop.simps)
  with run_loop_first [OF r] show ?thesis
    by (simp add: command_event_def)
qed

lemma run_commands_commands:
  assumes "run_commands sy renv cmds subdir envo w = (res, w')"
  shows "\<exists>new. trace w' = trace w @ new \<and> list_all is_command new"
proof (cases "runner_initialized w")
  case False
  with assms show ?thesis by (simp add: run_commands_def)
next
  case True
  let ?penv = "osenv (case envo of Some e \<Rightarrow> e | None \<Rightarrow> renv)"
  obtain b w1 where r: "run_loop sy renv (runner_dry_run w) subdir ?penv cmds w = (b, w1)"
    by (cases "run_loop sy renv (runner_dry_run w) subdir ?penv cmds w")
  with assms True have "w' = w1"
    by (simp add: run_commands_def Let_def)
  with run_loop_commands [OF r] show ?thesis by simp
qed

lemma run_or_fail_first:
  "runner_initialized w \<Longrightarrow> run_or_fail sy renv g sd (c # cs) subdir w = (res, w') \<Longrightarrow>
     \<exists>evs. trace w' = trace w @ command_event sy renv w c subdir # evs"
  by (auto simp: run_or_fail_def split: prod.splits sum.splits if_splits dest: run_commands_first)

lemma run_commands_uninitialized:
  "\<not> runner_initialized w \<Longrightarrow>
     run_commands sy renv cmds subdir envo w = (Inl (PyException ''PreReqComponent not initialized''), w)"
  by (simp add: run_commands_def)

section \<open>Theorems about the WebRetriever\<close>

text \<open>
  C10: \<open>check_md5\<close> returns False and leaves the file system alone when the file does
  not exist; returns True and leaves the file alone when its digest is the expected one;
  and removes the file, returning False, when the digest differs.
\<close>

theorem check_md5_file_effects:
  "(\<not> exists w f \<longrightarrow> check_md5 sy r f w = (Inr False, w)) \<and>
   (\<forall>content. exists w f \<and> fs w (abspath (cwd w) f) = Some (RegFile content)
        \<and> md5_hexdigest sy content = web_md5 r
      \<longrightarrow> check_md5 sy r f w = (Inr True, w)) \<and>
   (\<forall>content. exists w f \<and> fs w (abspath (cwd w) f) = Some (RegFile content)
        \<and> md5_hexdigest sy content \<noteq> web_md5 r
      \<longrightarrow> check_md5 sy r f w =
            (Inr False, w\<lparr>fs := (fs w)(abspath (cwd w) f := None),
                           trace := trace w @ [Remove (abspath (cwd w) f)]\<rparr>))"
  by (simp add: check_md5_def os_remove_def emit_def)

lemma abspath_example_archive: "abspath ''/a/b'' ''pkg.tar.gz'' = ''/a/b/pkg.tar.gz''"
  by (simp add: abspath_def path_join_def startswith_def endswith_def normpath_def Let_def)

theorem check_md5_file_effects_witness:
  "fst (check_md5 example_sys (example_web\<lparr>web_md5 := ''d2''\<rparr>) ''pkg.tar.gz'' example_world)
     = Inr False
   \<and> fs (snd (check_md5 example_sys (example_web\<lparr>web_md5 := ''d2''\<rparr>) ''pkg.tar.gz''
          example_world)) ''/a/b/pkg.tar.gz'' = None
   \<and> fs example_world ''/a/b/pkg.tar.gz'' = Some (RegFile ''d1'')"
proof -
  let ?r = "example_web\<lparr>web_md5 := ''d2''\<rparr>"
  have h: "exists example_world ''pkg.tar.gz''
        \<and> fs example_world (abspath (cwd example_world) ''pkg.tar.gz'') = Some (RegFile ''d1'')
        \<and> md5_hexdigest example_sys ''d1'' \<noteq> web_md5 ?r"
    by (simp add: exists_def example_world_def example_sys_def example_web_def
          abspath_example_archive)
  from check_md5_file_effects [of example_world "''pkg.tar.gz''" example_sys ?r] h
  have "check_md5 example_sys ?r ''pkg.tar.gz'' example_world =
          (Inr False,
           example_world\<lparr>fs := (fs example_world)(abspath (cwd example_world) ''pkg.tar.gz'' := None),
              trace := trace example_world @ [Remove (abspath (cwd example_world) ''pkg.tar.gz'')]\<rparr>)"
    by blast
  then show ?thesis
    by (simp add: example_world_def abspath_example_archive)
qed

text \<open>
  C7: \<open>download\<close> hands \<open>run_commands\<close> the flat list \<open>['curl', '-sSf', ...]\<close>
  where a list of commands is expected, so the first command \<open>run_commands\<close> starts is
  \<open>['c', 'u', 'r', 'l']\<close>.  On a machine with \<open>curl\<close> and no program named \<open>c\<close>
  the first try ends in the \<open>FileNotFoundError\<close> of \<open>subprocess.call\<close>, which nothing
  catches: \<open>download\<close> returns neither True nor False, counts no failed try, sleeps
  never and tries no second time.
\<close>

theorem download_flat_command:
  "fst (download no_c_sys example_env example_web ''pkg.tar.gz'' example_world)
     = Inl (PyOSError ''FileNotFoundError'')
   \<and> trace (snd (download no_c_sys example_env example_web ''pkg.tar.gz'' example_world))
     = [Exec [''c'', ''u'', ''r'', ''l''] None]"
  by code_simp

text \<open>
  C2: the containment test of \<open>WebRetriever.get\<close> compares characters, not path
  components.  With the working directory \<open>/a/b\<close> as destination, the member
  \<open>pkg/../../b_evil/x\<close> resolves to \<open>/a/b_evil/x\<close>, which is outside \<open>/a/b\<close>, yet
  passes the test, and \<open>get\<close> extracts it there and returns normally.
\<close>

theorem web_get_traversal:
  "fst (web_get traversal_sys example_env example_web ''src'' example_world) = Inr ()
   \<and> Extract ''/a/b_evil/x'' \<in> set (trace (snd (web_get traversal_sys example_env example_web ''src'' example_world)))
   \<and> fs (snd (web_get traversal_sys example_env example_web ''src'' example_world)) ''/a/b_evil/x'' = Some (RegFile ''y'')
   \<and> abspath (cwd example_world) (path_join ''.'' ''pkg/../../b_evil/x'') = ''/a/b_evil/x''
   \<and> abspath (cwd example_world) ''.'' = ''/a/b''
   \<and> \<not> inside_directory ''/a/b'' ''/a/b_evil/x''"
  by code_simp


section \<open>Theorems about the GitRepoRetriever\<close>

lemma run_commands_grows:
  "run_commands sy renv cmds subdir envo w = (res, w') \<Longrightarrow> grows is_command w w'"
  using run_commands_commands by (simp add: grows_def)

lemma run_or_fail_grows:
  "run_or_fail sy renv g sd cmds subdir w = (res, w') \<Longrightarrow> grows is_command w w'"
  by (auto simp: run_or_fail_def split: prod.splits sum.splits if_splits dest: run_commands_grows)

lemma checkout_commit_grows:
  "checkout_commit sy renv g subdir w = (res, w') \<Longrightarrow> grows is_command w w'"
  by (auto simp: checkout_commit_def split: option.splits dest: run_or_fail_grows)

lemma apply_patches_loop_grows:
  "apply_patches_loop sy renv g subdir ps w = (res, w') \<Longrightarrow> grows is_command w w'"
proof (induction ps arbitrary: w)
  case Nil
  then show ?case by simp
next
  case (Cons p ps)
  obtain patch dir where p: "p = (patch, dir)" by (cases p)
  let ?c = "[''git'', ''apply''] @ (case dir of None \<Rightarrow> [] | Some d \<Rightarrow> [''--directory'', d]) @ [patch]"
  obtain r1 w1 where a: "run_or_fail sy renv g subdir [?c] (Some subdir) w = (r1, w1)"
    by (cases "run_or_fail sy renv g subdir [?c] (Some subdir) w")
  note g1 = run_or_fail_grows [OF a]
  show ?case
  proof (cases r1)
    case (Inl e)
    with Cons.prems p a g1 show ?thesis by (simp add: Let_def)
  next
    case (Inr u)
    with Cons.prems p a have "apply_patches_loop sy renv g subdir ps w1 = (res, w')"
      by (simp add: Let_def)
    from grows_trans [OF g1 Cons.IH [OF this]] show ?thesis .
  qed
qed

lemma apply_patches_grows:
  "apply_patches sy renv g subdir ps w = (res, w') \<Longrightarrow> grows is_command w w'"
  by (auto simp: apply_patches_def split: option.splits dest: apply_patches_loop_grows)

lemma update_submodules_grows:
  "update_submodules sy renv g subdir w = (res, w') \<Longrightarrow> grows is_command w w'"
  by (auto simp: update_submodules_def split: if_splits dest: run_or_fail_grows)

lemma checkout_ref_grows:
  assumes "checkout_ref sy renv g subdir ref w = (res, g', w')"
  shows "grows is_command w w'"
proof -
  obtain r1 w1 where a: "run_commands sy renv [[''git'', ''checkout'', ref]] (Some subdir) None w = (r1, w1)"
    by (cases "run_commands sy renv [[''git'', ''checkout'', ref]] (Some subdir) None w")
  note g1 = run_commands_grows [OF a]
  show ?thesis
  proof (cases r1)
    case (Inl e)
    with assms a g1 show ?thesis by (simp add: checkout_ref_def)
  next
    case (Inr ok)
    let ?f = "(if \<not> ok then run_or_fail sy renv g subdir [[''git'', ''fetch'', ''-t'', ''-a'']] (Some subdir) w1
               else (Inr (), w1))"
    obtain r2 w2 where b: "?f = (r2, w2)" by (cases ?f)
    then have "grows is_command w1 w2"
      by (auto split: if_splits dest: run_or_fail_grows)
    with g1 have g2: "grows is_command w w2" by (rule grows_trans)
    show ?thesis
    proof (cases r2)
      case (Inl e)
      with assms a Inr b g2 show ?thesis by (simp add: checkout_ref_def)
    next
      case r2: (Inr u)
      obtain r3 w3 where c: "checkout_commit sy renv (g\<lparr>commit_sha := Some ref\<rparr>) subdir w2 = (r3, w3)"
        by (cases "checkout_commit sy renv (g\<lparr>commit_sha := Some ref\<rparr>) subdir w2")
      with assms a Inr b r2 have "w' = w3" by (simp add: checkout_ref_def Let_def)
      with grows_trans [OF g2 checkout_commit_grows [OF c]] show ?thesis by simp
    qed
  qed
qed

lemma checkout_ref_first:
  assumes "runner_initialized w" "checkout_ref sy renv g subdir ref w = (res, g', w')"
  shows "\<exists>evs. trace w' = trace w @ command_event sy renv w [''git'', ''checkout'', ref] (Some subdir) # evs"
proof -
  obtain r1 w1 where a: "run_commands sy renv [[''git'', ''checkout'', ref]] (Some subdir) None w = (r1, w1)"
    by (cases "run_commands sy renv [[''git'', ''checkout'', ref]] (Some subdir) None w")
  from run_commands_first [OF assms(1) a] obtain e1 where
    e1: "trace w1 = trace w @ command_event sy renv w [''git'', ''checkout'', ref] (Some subdir) # e1"
    by blast
  have "grows is_command w1 w'"
  proof (cases r1)
    case (Inl e)
    with assms(2) a show ?thesis by (simp add: checkout_ref_def)
  next
    case (Inr ok)
    let ?f = "(if \<not> ok then run_or_fail sy renv g subdir [[''git'', ''fetch'', ''-t'', ''-a'']] (Some subdir) w1
               else (Inr (), w1))"
    obtain r2 w2 where b: "?f = (r2, w2)" by (cases ?f)
    then have g2: "grows is_command w1 w2"
      by (auto split: if_splits dest: run_or_fail_grows)
    show ?thesis
    proof (cases r2)
      case (Inl e)
      with assms(2) a Inr b g2 show ?thesis by (simp add: checkout_ref_def)
    next
      case r2: (Inr u)
      obtain r3 w3 where c: "checkout_commit sy renv (g\<lparr>commit_sha := Some ref\<rparr>) subdir w2 = (r3, w3)"
        by (cases "checkout_commit sy renv (g\<lparr>commit_sha := Some ref\<rparr>) subdir w2")
      with assms(2) a Inr b r2 have "w' = w3" by (simp add: checkout_ref_def Let_def)
      with grows_trans [OF g2 checkout_commit_grows [OF c]] show ?thesis by simp
    qed
  qed
  with e1 show ?thesis by (rule grows_first)
qed

lemma get_specific_tail_grows:
  assumes "(case run_or_fail sy renv g2 subdir [[''git'', ''reset'', ''--hard'', ''HEAD'']] (Some subdir) w2 of
              (Inl e, w3) \<Rightarrow> (Inl e, g2, w3)
            | (Inr u, w3) \<Rightarrow>
                (case update_submodules sy renv g2 subdir w3 of
                   (Inl e, w4) \<Rightarrow> (Inl e, g2, w4)
                 | (Inr u, w4) \<Rightarrow>
                     (case apply_patches sy renv g2 subdir ps w4 of (r, w5) \<Rightarrow> (r, g2, w5)))) = (res, g', w')"
  shows "grows is_command w2 w'"
proof -
  obtain r3 w3 where a: "run_or_fail sy renv g2 subdir [[''git'', ''reset'', ''--hard'', ''HEAD'']] (Some subdir) w2 = (r3, w3)"
    by (cases "run_or_fail sy renv g2 subdir [[''git'', ''reset'', ''--hard'', ''HEAD'']] (Some subdir) w2")
  note g3 = run_or_fail_grows [OF a]
  show ?thesis
  proof (cases r3)
    case (Inl e)
    with assms a g3 show ?thesis by simp
  next
    case (Inr u)
    obtain r4 w4 where b: "update_submodules sy renv g2 subdir w3 = (r4, w4)"
      by (cases "update_submodules sy renv g2 subdir w3")
    note g4 = grows_trans [OF g3 update_submodules_grows [OF b]]
    show ?thesis
    proof (cases r4)
      case (Inl e)
      with assms a Inr b g4 show ?thesis by simp
    next
      case r4: (Inr u')
      obtain r5 w5 where c: "apply_patches sy renv g2 subdir ps w4 = (r5, w5)"
        by (cases "apply_patches sy renv g2 subdir ps w4")
      with assms a Inr b r4 have "w' = w5" by simp
      with grows_trans [OF g4 apply_patches_grows [OF c]] show ?thesis by simp
    qed
  qed
qed

lemma get_specific_first:
  assumes "runner_initialized w" "get_specific sy renv g subdir kw w = (res, g', w')"
    "kw_commit_sha kw = Some sha"
  shows "\<exists>evs. trace w' = trace w @ command_event sy renv w
            [''git'', ''checkout'',
             (let br = (case kw_branch kw of None \<Rightarrow> branch g | Some b \<Rightarrow> Some b)
              in if truthy br then the br else sha)] (Some subdir) # evs"
proof -
  let ?br = "(case kw_branch kw of None \<Rightarrow> branch g | Some b \<Rightarrow> Some b)"
  let ?g0 = "g\<lparr>branch := ?br\<rparr>"
  let ?first = "(if truthy ?br then checkout_ref sy renv ?g0 subdir (the ?br) w else (Inr (), ?g0, w))"
  obtain r1 g1 w1 where a: "?first = (r1, g1, w1)" by (cases ?first)
  show ?thesis
  proof (cases "truthy ?br")
    case True
    with a have cr: "checkout_ref sy renv ?g0 subdir (the ?br) w = (r1, g1, w1)" by simp
    from checkout_ref_first [OF assms(1) cr] obtain e1 where
      e1: "trace w1 = trace w @ command_event sy renv w [''git'', ''checkout'', the ?br] (Some subdir) # e1"
      by blast
    have "grows is_command w1 w'"
    proof (cases r1)
      case (Inl e)
      with assms(2) a show ?thesis
        by (simp add: get_specific_def Let_def )
    next
      case (Inr u)
      let ?second = "checkout_ref sy renv g1 subdir sha w1"
      obtain r2 g2 w2 where b: "?second = (r2, g2, w2)" by (cases ?second)
      note gb = checkout_ref_grows [OF b]
      show ?thesis
      proof (cases r2)
        case (Inl e)
        with assms(2,3) a Inr b gb show ?thesis
          by (simp add: get_specific_def Let_def )
      next
        case r2: (Inr u')
        from assms(2,3) a Inr b r2 have
          "(case run_or_fail sy renv g2 subdir [[''git'', ''reset'', ''--hard'', ''HEAD'']] (Some subdir) w2 of
              (Inl e, w3) \<Rightarrow> (Inl e, g2, w3)
            | (Inr u, w3) \<Rightarrow>
                (case update_submodules sy renv g2 subdir w3 of
                   (Inl e, w4) \<Rightarrow> (Inl e, g2, w4)
                 | (Inr u, w4) \<Rightarrow>
                     (case apply_patches sy renv g2 subdir (kw_patches kw) w4 of (r, w5) \<Rightarrow> (r, g2, w5)))) = (res, g', w')"
          by (simp add: get_specific_def Let_def )
        from grows_trans [OF gb get_specific_tail_grows [OF this]] show ?thesis .
      qed
    qed
    with e1 have "\<exists>evs. trace w' = trace w @ command_event sy renv w [''git'', ''checkout'', the ?br] (Some subdir) # evs"
      by (rule grows_first)
    with True show ?thesis by (simp add: Let_def)
  next
    case False
    with a have eq: "r1 = Inr ()" "g1 = ?g0" "w1 = w" by simp_all
    let ?second = "checkout_ref sy renv ?g0 subdir sha w"
    obtain r2 g2 w2 where b: "?second = (r2, g2, w2)" by (cases ?second)
    from checkout_ref_first [OF assms(1) b] obtain e1 where
      e1: "trace w2 = trace w @ command_event sy renv w [''git'', ''checkout'', sha] (Some subdir) # e1"
      by blast
    have "grows is_command w2 w'"
    proof (cases r2)
      case (Inl e)
      with assms(2,3) False b show ?thesis
        by (simp add: get_specific_def Let_def )
    next
      case r2: (Inr u')
      from assms(2,3) False b r2 have
        "(case run_or_fail sy renv g2 subdir [[''git'', ''reset'', ''--hard'', ''HEAD'']] (Some subdir) w2 of
            (Inl e, w3) \<Rightarrow> (Inl e, g2, w3)
          | (Inr u, w3) \<Rightarrow>
              (case update_submodules sy renv g2 subdir w3 of
                 (Inl e, w4) \<Rightarrow> (Inl e, g2, w4)
               | (Inr u, w4) \<Rightarrow>
                   (case apply_patches sy renv g2 subdir (kw_patches kw) w4 of (r, w5) \<Rightarrow> (r, g2, w5)))) = (res, g', w')"
        by (simp add: get_specific_def Let_def )
      from get_specific_tail_grows [OF this] show ?thesis .
    qed
    with e1 have "\<exists>evs. trace w' = trace w @ command_event sy renv w [''git'', ''checkout'', sha] (Some subdir) # evs"
      by (rule grows_first)
    with False show ?thesis by (simp add: Let_def)
  qed
qed


lemma get_specific_grows:
  assumes "get_specific sy renv g subdir kw w = (res, g', w')"
  shows "grows is_command w w'"
proof -
  let ?br = "(case kw_branch kw of None \<Rightarrow> branch g | Some b \<Rightarrow> Some b)"
  let ?g0 = "g\<lparr>branch := ?br\<rparr>"
  let ?first = "(if truthy ?br then checkout_ref sy renv ?g0 subdir (the ?br) w else (Inr (), ?g0, w))"
  obtain r1 g1 w1 where a: "?first = (r1, g1, w1)" by (cases ?first)
  then have ga: "grows is_command w w1"
    by (auto split: if_splits dest: checkout_ref_grows)
  show ?thesis
  proof (cases r1)
    case (Inl e)
    with assms a ga show ?thesis by (simp add: get_specific_def Let_def)
  next
    case (Inr u)
    let ?second = "(case kw_commit_sha kw of None \<Rightarrow> (Inr (), g1, w1)
                    | Some passed_commit_sha \<Rightarrow> checkout_ref sy renv g1 subdir passed_commit_sha w1)"
    obtain r2 g2 w2 where b: "?second = (r2, g2, w2)" by (cases ?second)
    then have "grows is_command w1 w2"
      by (auto split: option.splits dest: checkout_ref_grows)
    with ga have gb: "grows is_command w w2" by (rule grows_trans)
    show ?thesis
    proof (cases r2)
      case (Inl e)
      with assms a Inr b gb show ?thesis by (simp add: get_specific_def Let_def)
    next
      case r2: (Inr u')
      from assms a Inr b r2 have
        "(case run_or_fail sy renv g2 subdir [[''git'', ''reset'', ''--hard'', ''HEAD'']] (Some subdir) w2 of
            (Inl e, w3) \<Rightarrow> (Inl e, g2, w3)
          | (Inr u, w3) \<Rightarrow>
              (case update_submodules sy renv g2 subdir w3 of
                 (Inl e, w4) \<Rightarrow> (Inl e, g2, w4)
               | (Inr u, w4) \<Rightarrow>
                   (case apply_patches sy renv g2 subdir (kw_patches kw) w4 of (r, w5) \<Rightarrow> (r, g2, w5)))) = (res, g', w')"
        by (simp add: get_specific_def Let_def)
      from grows_trans [OF gb get_specific_tail_grows [OF this]] show ?thesis .
    qed
  qed
qed

lemma git_get_grows:
  assumes "git_get sy renv g subdir kw w = (res, g', w')"
  shows "grows is_command w w'"
proof (cases "kw_commit_sha kw")
  case None
  with assms show ?thesis by (simp add: git_get_def)
next
  case (Some sha)
  let ?clone = "(if \<not> exists w subdir
                 then run_or_fail sy renv g subdir [[''git'', ''clone'', git_url g, subdir]] None w
                 else (Inr (), w))"
  obtain r1 w1 where a: "?clone = (r1, w1)" by (cases ?clone)
  then have ga: "grows is_command w w1"
    by (auto split: if_splits dest: run_or_fail_grows)
  show ?thesis
  proof (cases r1)
    case (Inl e)
    with assms Some a ga show ?thesis by (simp add: git_get_def)
  next
    case (Inr u)
    with assms Some a have "get_specific sy renv g subdir kw w1 = (res, g', w')"
      by (simp add: git_get_def)
    from grows_trans [OF ga get_specific_grows [OF this]] show ?thesis .
  qed
qed


text \<open>
  C3, as the code has it: \<open>GitRepoRetriever.get\<close> raises \<open>DownloadFailure\<close> before any
  command whenever no commit SHA is passed, whether or not a branch is passed; once a
  commit SHA is passed the pin check is over and, on an initialised runner, the first
  thing \<open>get\<close> does is run a command: \<open>git clone\<close> when the directory is missing,
  otherwise \<open>git checkout\<close> of the branch (when there is one) or of the commit.
\<close>

theorem git_get_pin_check:
  "(kw_commit_sha kw = None \<longrightarrow>
      git_get sy renv g subdir kw w = (Inl (DownloadFailure (git_url g) subdir), g, w)) \<and>
   (\<forall>sha. kw_commit_sha kw = Some sha \<and> runner_initialized w \<longrightarrow>
      (\<exists>evs. trace (snd (snd (git_get sy renv g subdir kw w))) = trace w @
         (if \<not> exists w subdir
          then command_event sy renv w [''git'', ''clone'', git_url g, subdir] None
          else command_event sy renv w
                 [''git'', ''checkout'',
                  (let br = (case kw_branch kw of None \<Rightarrow> branch g | Some b \<Rightarrow> Some b)
                   in if truthy br then the br else sha)] (Some subdir)) # evs))"
proof (intro conjI allI impI)
  assume "kw_commit_sha kw = None"
  then show "git_get sy renv g subdir kw w = (Inl (DownloadFailure (git_url g) subdir), g, w)"
    by (simp add: git_get_def)
next
  fix sha assume h: "kw_commit_sha kw = Some sha \<and> runner_initialized w"
  obtain res g' w' where r: "git_get sy renv g subdir kw w = (res, g', w')"
    by (cases "git_get sy renv g subdir kw w")
  have "\<exists>evs. trace w' = trace w @
         (if \<not> exists w subdir
          then command_event sy renv w [''git'', ''clone'', git_url g, subdir] None
          else command_event sy renv w
                 [''git'', ''checkout'',
                  (let br = (case kw_branch kw of None \<Rightarrow> branch g | Some b \<Rightarrow> Some b)
                   in if truthy br then the br else sha)] (Some subdir)) # evs"
  proof (cases "exists w subdir")
    case True
    with r h have "get_specific sy renv g subdir kw w = (res, g', w')"
      by (simp add: git_get_def)
    from get_specific_first [OF _ this] h True show ?thesis by simp
  next
    case False
    obtain r1 w1 where a: "run_or_fail sy renv g subdir [[''git'', ''clone'', git_url g, subdir]] None w = (r1, w1)"
      by (cases "run_or_fail sy renv g subdir [[''git'', ''clone'', git_url g, subdir]] None w")
    from run_or_fail_first [OF _ a] h obtain e1 where
      e1: "trace w1 = trace w @ command_event sy renv w [''git'', ''clone'', git_url g, subdir] None # e1"
      by blast
    have "grows is_command w1 w'"
    proof (cases r1)
      case (Inl e)
      with r h False a show ?thesis by (simp add: git_get_def)
    next
      case (Inr u)
      with r h False a have "get_specific sy renv g subdir kw w1 = (res, g', w')"
        by (simp add: git_get_def)
      then show ?thesis by (rule get_specific_grows)
    qed
    with e1 have "\<exists>evs. trace w' = trace w @ command_event sy renv w [''git'', ''clone'', git_url g, subdir] None # evs"
      by (rule grows_first)
    with False show ?thesis by simp
  qed
  with r show "\<exists>evs. trace (snd (snd (git_get sy renv g subdir kw w))) = trace w @
         (if \<not> exists w subdir
          then command_event sy renv w [''git'', ''clone'', git_url g, subdir] None
          else command_event sy renv w
                 [''git'', ''checkout'',
                  (let br = (case kw_branch kw of None \<Rightarrow> branch g | Some b \<Rightarrow> Some b)
                   in if truthy br then the br else sha)] (Some subdir)) # evs"
    by simp
qed

theorem git_get_pin_check_witness:
  "kw_commit_sha \<lparr>kw_commit_sha = Some ''abc123'', kw_branch = None, kw_patches = Some []\<rparr> = Some ''abc123''
   \<and> runner_initialized example_world
   \<and> (\<exists>evs. trace (snd (snd (git_get example_sys example_env example_git ''/a/b/bar''
          \<lparr>kw_commit_sha = Some ''abc123'', kw_branch = None, kw_patches = Some []\<rparr> example_world)))
        = Exec [''git'', ''clone'', ''https://h/bar.git'', ''/a/b/bar''] None # evs)
   \<and> git_get example_sys example_env example_git ''/a/b/bar''
          \<lparr>kw_commit_sha = None, kw_branch = None, kw_patches = Some []\<rparr> example_world
        = (Inl (DownloadFailure ''https://h/bar.git'' ''/a/b/bar''), example_git, example_world)"
proof -
  let ?kw = "\<lparr>kw_commit_sha = Some ''abc123'', kw_branch = None, kw_patches = Some []\<rparr>"
  let ?nokw = "\<lparr>kw_commit_sha = None, kw_branch = None, kw_patches = Some []\<rparr>"
  have h: "kw_commit_sha ?kw = Some ''abc123'' \<and> runner_initialized example_world"
    by (simp add: example_world_def)
  have ne: "\<not> exists example_world ''/a/b/bar''"
    by (simp add: exists_def example_world_def abspath_def startswith_def normpath_def Let_def)
  have ce: "command_event example_sys example_env example_world
              [''git'', ''clone'', git_url example_git, ''/a/b/bar''] None
            = Exec [''git'', ''clone'', ''https://h/bar.git'', ''/a/b/bar''] None"
    by (simp add: command_event_def example_world_def example_sys_def example_git_def)
  have t: "trace example_world = []"
    by (simp add: example_world_def)
  from git_get_pin_check [of ?kw example_sys example_env example_git "''/a/b/bar''" example_world] h
  have "\<exists>evs. trace (snd (snd (git_get example_sys example_env example_git ''/a/b/bar'' ?kw example_world)))
          = trace example_world @
            (if \<not> exists example_world ''/a/b/bar''
             then command_event example_sys example_env example_world
                    [''git'', ''clone'', git_url example_git, ''/a/b/bar''] None
             else command_event example_sys example_env example_world
                 [''git'', ''checkout'',
                  (let br = (case kw_branch ?kw of None \<Rightarrow> branch example_git | Some b \<Rightarrow> Some b)
                   in if truthy br then the br else ''abc123'')] (Some ''/a/b/bar'')) # evs"
    by blast
  then have a: "\<exists>evs. trace (snd (snd (git_get example_sys example_env example_git ''/a/b/bar'' ?kw example_world)))
          = Exec [''git'', ''clone'', ''https://h/bar.git'', ''/a/b/bar''] None # evs"
    using ne ce t by simp
  have k0: "kw_commit_sha ?nokw = None" by simp
  from git_get_pin_check [of ?nokw example_sys example_env example_git "''/a/b/bar''" example_world] k0
  have b: "git_get example_sys example_env example_git ''/a/b/bar'' ?nokw example_world
        = (Inl (DownloadFailure (git_url example_git) ''/a/b/bar''), example_git, example_world)"
    by blast
  from h a b show ?thesis by (simp add: example_git_def)
qed


text \<open>
  C3 as stated fails: a branch without a commit SHA does not get past the pin check.
\<close>

theorem git_get_branch_only_counterexample:
  "git_get example_sys example_env example_git ''/a/b/bar''
      \<lparr>kw_commit_sha = None, kw_branch = Some ''main'', kw_patches = Some []\<rparr> example_world
    = (Inl (DownloadFailure ''https://h/bar.git'' ''/a/b/bar''), example_git, example_world)"
  by (simp add: git_get_def example_git_def)


section \<open>Theorems about has_missing_targets\<close>

lemma probe_events_append [simp]: "probe_events (a @ b) = probe_events a @ probe_events b"
  by (simp add: probe_events_def)

lemma probe_events_Nil [simp]: "probe_events [] = []"
  by (simp add: probe_events_def)

lemma short_circuit_Nil [simp]: "short_circuit [] True []"
  by (simp add: short_circuit_def)

lemma short_circuit_fail_first: "short_circuit (p # ps) False [(p, False)]"
proof -
  have "\<exists>before q after. p # ps = before @ q # after
          \<and> [(p, False)] = map (\<lambda>p. (p, True)) before @ [(q, False)]"
    by (intro exI [of _ "[]"] exI [of _ p] exI [of _ ps]) simp
  then show ?thesis by (simp add: short_circuit_def)
qed

lemma short_circuit_Cons:
  assumes "short_circuit ps ok done"
  shows "short_circuit (p # ps) ok ((p, True) # done)"
proof (cases ok)
  case True
  with assms show ?thesis by (simp add: short_circuit_def)
next
  case False
  with assms obtain before q after where
    "ps = before @ q # after" "done = map (\<lambda>p. (p, True)) before @ [(q, False)]"
    by (auto simp: short_circuit_def)
  then have "\<exists>b q a. p # ps = b @ q # a
          \<and> (p, True) # done = map (\<lambda>p. (p, True)) b @ [(q, False)]"
    by (intro exI [of _ "p # before"] exI [of _ q] exI [of _ after]) simp
  with False show ?thesis by (simp add: short_circuit_def)
qed

lemma short_circuit_append:
  assumes "short_circuit ps True d1" "short_circuit qs ok d2"
  shows "short_circuit (ps @ qs) ok (d1 @ d2)"
proof (cases ok)
  case True
  with assms show ?thesis by (simp add: short_circuit_def)
next
  case False
  with assms obtain before q after where
    "qs = before @ q # after" "d2 = map (\<lambda>p. (p, True)) before @ [(q, False)]"
    by (auto simp: short_circuit_def)
  moreover from assms(1) have "d1 = map (\<lambda>p. (p, True)) ps"
    by (simp add: short_circuit_def)
  ultimately have "\<exists>b q a. ps @ qs = b @ q # a
          \<and> d1 @ d2 = map (\<lambda>p. (p, True)) b @ [(q, False)]"
    by (intro exI [of _ "ps @ before"] exI [of _ q] exI [of _ after]) simp
  with False show ?thesis by (simp add: short_circuit_def)
qed

lemma short_circuit_stop:
  assumes "short_circuit ps False d1"
  shows "short_circuit (ps @ qs) False d1"
proof -
  from assms obtain before q after where
    "ps = before @ q # after" "d1 = map (\<lambda>p. (p, True)) before @ [(q, False)]"
    by (auto simp: short_circuit_def)
  then have "\<exists>b q a. ps @ qs = b @ q # a \<and> d1 = map (\<lambda>p. (p, True)) b @ [(q, False)]"
    by (intro exI [of _ before] exI [of _ q] exI [of _ "after @ qs"]) simp
  then show ?thesis by (simp add: short_circuit_def)
qed

lemma run_probe_trace:
  "run_probe sy p e w = (ok, e', w') \<Longrightarrow> w' = emit (Probed p ok) w"
  by (auto simp: run_probe_def split: prod.splits)

lemma check_each_trace:
  "check_each sy ps e w = (ok, e', w') \<Longrightarrow>
     \<exists>done. w' = w\<lparr>trace := trace w @ probe_events done\<rparr> \<and> short_circuit ps ok done"
proof (induction ps arbitrary: e w)
  case Nil
  then show ?case by (auto intro!: exI [of _ "[]"])
next
  case (Cons p ps)
  obtain ok1 e1 w1 where a: "run_probe sy p e w = (ok1, e1, w1)"
    by (cases "run_probe sy p e w")
  note w1 = run_probe_trace [OF a]
  show ?case
  proof (cases ok1)
    case False
    with Cons.prems a have "ok = False" "w' = w1" by auto
    with w1 False show ?thesis
      by (auto intro!: exI [of _ "[(p, False)]"] simp: emit_def probe_events_def short_circuit_fail_first)
  next
    case True
    with Cons.prems a have "check_each sy ps e1 w1 = (ok, e', w')" by simp
    from Cons.IH [OF this] obtain d where d: "w' = w1\<lparr>trace := trace w1 @ probe_events d\<rparr>"
      "short_circuit ps ok d" by blast
    with w1 True show ?thesis
      by (auto intro!: exI [of _ "(p, True) # d"] simp: emit_def probe_events_def short_circuit_Cons)
  qed
qed


lemma check_libs_trace:
  "check_libs sy c ls e w = (ok, e', w') \<Longrightarrow>
     \<exists>done. w' = w\<lparr>trace := trace w @ probe_events done\<rparr> \<and> short_circuit (map CheckLib ls) ok done"
proof (induction ls arbitrary: e w)
  case Nil
  then show ?case by (auto intro!: exI [of _ "[]"])
next
  case (Cons l ls)
  let ?e1 = "(if truthy (libs_cc c)
                then Replace ''CC'' (libs_cc c)
                       (Replace (upper (name c) @ ''_PREFIX'') (component_prefix c) e)
                else e)"
  obtain ok1 e2 w1 where a: "run_probe sy (CheckLib l) ?e1 w = (ok1, e2, w1)"
    by (cases "run_probe sy (CheckLib l) ?e1 w")
  note w1 = run_probe_trace [OF a]
  show ?case
  proof (cases ok1)
    case False
    with Cons.prems a have "ok = False" "w' = w1" by (auto simp: Let_def)
    with w1 False show ?thesis
      by (auto intro!: exI [of _ "[(CheckLib l, False)]"]
               simp: emit_def probe_events_def short_circuit_fail_first)
  next
    case True
    with Cons.prems a
    have "check_libs sy c ls (Replace ''CC'' (Some (env_subst sy e ''$CC'')) e2) w1 = (ok, e', w')"
      by (simp add: Let_def)
    from Cons.IH [OF this] obtain d where d: "w' = w1\<lparr>trace := trace w1 @ probe_events d\<rparr>"
      "short_circuit (map CheckLib ls) ok d" by blast
    with w1 True show ?thesis
      by (auto intro!: exI [of _ "(CheckLib l, True) # d"]
               simp: emit_def probe_events_def short_circuit_Cons)
  qed
qed

lemma check_functions_trace:
  "check_functions sy fl e cenv w = (ok, e', w') \<Longrightarrow>
     \<exists>done. w' = w\<lparr>trace := trace w @ probe_events done\<rparr>
        \<and> short_circuit (concat (map (\<lambda>(lib, funs). map CheckFunc funs) fl)) ok done"
proof (induction fl arbitrary: e cenv w)
  case Nil
  then show ?case by (auto intro!: exI [of _ "[]"])
next
  case (Cons f fl)
  obtain lib funs where f: "f = (lib, funs)" by (cases f)
  let ?cur = "AppendUnique ''LIBS'' lib (case cenv of None \<Rightarrow> e | Some ce \<Rightarrow> ce)"
  obtain ok1 e1 w1 where a: "check_each sy (map CheckFunc funs) ?cur w = (ok1, e1, w1)"
    by (cases "check_each sy (map CheckFunc funs) ?cur w")
  from check_each_trace [OF a] obtain d1 where d1: "w1 = w\<lparr>trace := trace w @ probe_events d1\<rparr>"
    "short_circuit (map CheckFunc funs) ok1 d1" by blast
  show ?case
  proof (cases ok1)
    case False
    with Cons.prems f a have "ok = False" "w' = w1"
      by (auto split: option.splits)
    with d1 False f show ?thesis
      by (auto intro!: exI [of _ d1] simp: short_circuit_stop)
  next
    case True
    with Cons.prems f a obtain e2 ce2 where "check_functions sy fl e2 ce2 w1 = (ok, e', w')"
      by (auto split: option.splits)
    from Cons.IH [OF this] obtain d2 where d2: "w' = w1\<lparr>trace := trace w1 @ probe_events d2\<rparr>"
      "short_circuit (concat (map (\<lambda>(lib, funs). map CheckFunc funs) fl)) ok d2" by blast
    from d1(2) True d2(2) f
    have "short_circuit (concat (map (\<lambda>(lib, funs). map CheckFunc funs) (f # fl))) ok (d1 @ d2)"
      by (simp add: short_circuit_append)
    moreover from d1(1) d2(1) have "w' = w\<lparr>trace := trace w @ probe_events (d1 @ d2)\<rparr>"
      by simp
    ultimately show ?thesis by blast
  qed
qed

lemma run_checks_trace:
  assumes "run_checks sy c e w = (ok, e', w')"
  shows "\<exists>done. w' = w\<lparr>trace := trace w @ probe_events done\<rparr> \<and> short_circuit (all_probes c) ok done"
proof -
  let ?P0 = "(if config_cb c then [CheckCallback] else [])"
  let ?P1 = "map CheckProg (progs c)"
  let ?P2 = "map CheckHeader (headers c)"
  let ?P3 = "map CheckLib (libs c)"
  let ?P4 = "concat (map (\<lambda>(lib, funs). map CheckFunc funs) (c_functions c))"
  have ap: "all_probes c = ?P0 @ ?P1 @ ?P2 @ ?P3 @ ?P4"
    by (simp add: all_probes_def)
  let ?s0 = "(if config_cb c then run_probe sy CheckCallback e w else (True, e, w))"
  obtain ok0 e0 w0 where s0: "?s0 = (ok0, e0, w0)" by (cases ?s0)
  have "\<exists>d. w0 = w\<lparr>trace := trace w @ probe_events d\<rparr> \<and> short_circuit ?P0 ok0 d"
  proof (cases "config_cb c")
    case True
    with s0 have rp: "run_probe sy CheckCallback e w = (ok0, e0, w0)" by simp
    from run_probe_trace [OF rp] True show ?thesis
      by (cases ok0)
         (auto intro!: exI [of _ "[(CheckCallback, ok0)]"]
               simp: emit_def probe_events_def short_circuit_fail_first short_circuit_def)
  next
    case False
    with s0 show ?thesis by (auto intro!: exI [of _ "[]"])
  qed
  then obtain d0 where d0: "w0 = w\<lparr>trace := trace w @ probe_events d0\<rparr>" "short_circuit ?P0 ok0 d0"
    by blast
  show ?thesis
  proof (cases ok0)
    case False
    with assms s0 have "ok = False" "w' = w0" by (auto simp: run_checks_def)
    moreover from d0(2) False have "short_circuit ?P0 False d0" by simp
    then have "short_circuit (?P0 @ (?P1 @ ?P2 @ ?P3 @ ?P4)) False d0"
      by (rule short_circuit_stop)
    then have "short_circuit (all_probes c) False d0"
      unfolding ap .
    ultimately show ?thesis using d0(1) by blast
  next
    case t0: True
    obtain ok1 e1 w1 where s1: "check_each sy ?P1 e0 w0 = (ok1, e1, w1)"
      by (cases "check_each sy ?P1 e0 w0")
    from check_each_trace [OF s1] obtain d1 where
      d1: "w1 = w0\<lparr>trace := trace w0 @ probe_events d1\<rparr>" "short_circuit ?P1 ok1 d1" by blast
    have w1: "w1 = w\<lparr>trace := trace w @ probe_events (d0 @ d1)\<rparr>"
      using d0(1) d1(1) by simp
    have c1: "short_circuit (?P0 @ ?P1) ok1 (d0 @ d1)"
      using d0(2) t0 d1(2) by (simp only: short_circuit_append)
    show ?thesis
    proof (cases ok1)
      case False
      with assms s0 t0 s1 have "ok = False" "w' = w1" by (auto simp: run_checks_def)
      moreover from c1 False have "short_circuit (?P0 @ ?P1) False (d0 @ d1)" by simp
      then have "short_circuit ((?P0 @ ?P1) @ (?P2 @ ?P3 @ ?P4)) False (d0 @ d1)"
        by (rule short_circuit_stop)
      then have "short_circuit (all_probes c) False (d0 @ d1)"
        unfolding ap by (simp only: append_assoc)
      ultimately show ?thesis using w1 by blast
    next
      case t1: True
      obtain ok2 e2 w2 where s2: "check_each sy ?P2 e1 w1 = (ok2, e2, w2)"
        by (cases "check_each sy ?P2 e1 w1")
      from check_each_trace [OF s2] obtain d2 where
        d2: "w2 = w1\<lparr>trace := trace w1 @ probe_events d2\<rparr>" "short_circuit ?P2 ok2 d2" by blast
      have w2: "w2 = w\<lparr>trace := trace w @ probe_events ((d0 @ d1) @ d2)\<rparr>"
        using w1 d2(1) by simp
      have c2: "short_circuit ((?P0 @ ?P1) @ ?P2) ok2 ((d0 @ d1) @ d2)"
        using c1 t1 d2(2) by (simp only: short_circuit_append)
      show ?thesis
      proof (cases ok2)
        case False
        with assms s0 t0 s1 t1 s2 have "ok = False" "w' = w2" by (auto simp: run_checks_def)
        moreover from c2 False have "short_circuit ((?P0 @ ?P1) @ ?P2) False ((d0 @ d1) @ d2)" by simp
        then have "short_circuit (((?P0 @ ?P1) @ ?P2) @ (?P3 @ ?P4)) False ((d0 @ d1) @ d2)"
          by (rule short_circuit_stop)
        then have "short_circuit (all_probes c) False ((d0 @ d1) @ d2)"
          unfolding ap by (simp only: append_assoc)
        ultimately show ?thesis using w2 by blast
      next
        case t2: True
        obtain ok3 e3 w3 where s3: "check_libs sy c (libs c) e2 w2 = (ok3, e3, w3)"
          by (cases "check_libs sy c (libs c) e2 w2")
        from check_libs_trace [OF s3] obtain d3 where
          d3: "w3 = w2\<lparr>trace := trace w2 @ probe_events d3\<rparr>" "short_circuit ?P3 ok3 d3" by blast
        have w3: "w3 = w\<lparr>trace := trace w @ probe_events (((d0 @ d1) @ d2) @ d3)\<rparr>"
          using w2 d3(1) by simp
        have c3: "short_circuit (((?P0 @ ?P1) @ ?P2) @ ?P3) ok3 (((d0 @ d1) @ d2) @ d3)"
          using c2 t2 d3(2) by (simp only: short_circuit_append)
        show ?thesis
        proof (cases ok3)
          case False
          with assms s0 t0 s1 t1 s2 t2 s3 have "ok = False" "w' = w3" by (auto simp: run_checks_def)
          moreover from c3 False have "short_circuit (((?P0 @ ?P1) @ ?P2) @ ?P3) False (((d0 @ d1) @ d2) @ d3)" by simp
          then have "short_circuit ((((?P0 @ ?P1) @ ?P2) @ ?P3) @ ?P4) False (((d0 @ d1) @ d2) @ d3)"
            by (rule short_circuit_stop)
          then have "short_circuit (all_probes c) False (((d0 @ d1) @ d2) @ d3)"
            unfolding ap by (simp only: append_assoc)
          ultimately show ?thesis using w3 by blast
        next
          case t3: True
          with assms s0 t0 s1 t1 s2 t2 s3
          have s4: "check_functions sy (c_functions c) e3 None w3 = (ok, e', w')"
            by (auto simp: run_checks_def)
          from check_functions_trace [OF s4] obtain d4 where
            d4: "w' = w3\<lparr>trace := trace w3 @ probe_events d4\<rparr>" "short_circuit ?P4 ok d4" by blast
          have w4: "w' = w\<lparr>trace := trace w @ probe_events ((((d0 @ d1) @ d2) @ d3) @ d4)\<rparr>"
            using w3 d4(1) by simp
          have c4: "short_circuit ((((?P0 @ ?P1) @ ?P2) @ ?P3) @ ?P4) ok ((((d0 @ d1) @ d2) @ d3) @ d4)"
            using c3 t3 d4(2) by (simp only: short_circuit_append)
          from c4 have "short_circuit (all_probes c) ok ((((d0 @ d1) @ d2) @ d3) @ d4)"
            unfolding ap by (simp only: append_assoc)
          with w4 show ?thesis by blast
        qed
      qed
    qed
  qed
qed

lemma parse_config_world:
  "parse_config sy c opts e w = (e', w') \<Longrightarrow>
     w' = w \<or> (\<exists>pc. pkgconfig c = Some pc \<and> w' = emit (PkgConfig opts pc) w)"
  by (auto simp: parse_config_def ParseConfig_def Let_def
           split: option.splits prod.splits if_splits)


lemma has_missing_targets_cases:
  assumes "has_missing_targets sy c e w = (missing, c', e', w')"
  shows "(targets_found c \<and> \<not> missing \<and> c' = c \<and> e' = e \<and> w' = w)
       \<or> (\<not> targets_found c \<and> \<not> check_only c \<and> opt_no_exec w \<and> missing \<and> c' = c \<and> e' = e \<and> w' = w)
       \<or> (\<not> targets_found c \<and> (check_only c \<or> \<not> opt_no_exec w) \<and> opt_help w \<and> missing \<and> c' = c
            \<and> (\<exists>pk. trace w' = trace w @ pk
                   \<and> (pk = [] \<or> (\<exists>pc. pkgconfig c = Some pc \<and> pk = [PkgConfig ''--cflags'' pc]))))
       \<or> (\<not> targets_found c \<and> (check_only c \<or> \<not> opt_no_exec w) \<and> \<not> opt_help w
            \<and> (missing \<longrightarrow> c' = c) \<and> (\<not> missing \<longrightarrow> c' = c\<lparr>targets_found := True\<rparr>)
            \<and> (\<exists>pk done. trace w' = trace w @ pk @ probe_events done
                   \<and> (pk = [] \<or> (\<exists>pc. pkgconfig c = Some pc \<and> pk = [PkgConfig ''--cflags'' pc]))
                   \<and> short_circuit (all_probes c) (\<not> missing) done))"
proof (cases "targets_found c")
  case True
  with assms show ?thesis by (simp add: has_missing_targets_def)
next
  case nf: False
  define w1 where "w1 = (if check_only c then w\<lparr>opt_no_exec := False\<rparr> else w)"
  have w1: "trace w1 = trace w" "opt_help w1 = opt_help w"
    "opt_no_exec w1 = (\<not> check_only c \<and> opt_no_exec w)"
    by (simp_all add: w1_def)
  show ?thesis
  proof (cases "opt_no_exec w1")
    case True
    with assms nf have "missing" "c' = c" "e' = e" "w' = w1"
      by (simp_all add: has_missing_targets_def Let_def w1_def [symmetric])
    moreover from True w1 have "\<not> check_only c" "opt_no_exec w" by simp_all
    ultimately show ?thesis using nf by (simp add: w1_def)
  next
    case ex: False
    obtain e1 w2 where pc: "parse_config sy c ''--cflags'' e w1 = (e1, w2)"
      by (cases "parse_config sy c ''--cflags'' e w1")
    from parse_config_world [OF pc] w1
    have w2: "opt_help w2 = opt_help w"
      "\<exists>pk. trace w2 = trace w @ pk
          \<and> (pk = [] \<or> (\<exists>pc. pkgconfig c = Some pc \<and> pk = [PkgConfig ''--cflags'' pc]))"
      by (auto simp: emit_def)
    from w2(2) obtain pk where pk: "trace w2 = trace w @ pk"
      "pk = [] \<or> (\<exists>pc. pkgconfig c = Some pc \<and> pk = [PkgConfig ''--cflags'' pc])" by blast
    from ex w1 have en: "check_only c \<or> \<not> opt_no_exec w" by simp
    show ?thesis
    proof (cases "opt_help w2")
      case True
      with assms nf ex pc have "missing" "c' = c" "w' = w2"
        by (simp_all add: has_missing_targets_def Let_def w1_def [symmetric])
      with nf en True w2(1) pk show ?thesis by auto
    next
      case nh: False
      obtain ok e2 w3 where rc: "run_checks sy c e1 w2 = (ok, e2, w3)"
        by (cases "run_checks sy c e1 w2")
      from run_checks_trace [OF rc] obtain d where
        d: "w3 = w2\<lparr>trace := trace w2 @ probe_events d\<rparr>" "short_circuit (all_probes c) ok d"
        by blast
      define w4 where "w4 = (if check_only c then w3\<lparr>opt_no_exec := True\<rparr> else w3)"
      from assms nf ex pc nh rc have r: "missing = (\<not> ok)" "w' = w4"
        "c' = (if ok then c\<lparr>targets_found := True\<rparr> else c)"
        by (auto simp: has_missing_targets_def Let_def w1_def [symmetric] w4_def split: if_splits)
      from d(1) pk(1) have "trace w4 = trace w @ pk @ probe_events d"
        by (simp add: w4_def)
      with r d(2) pk(2) have "\<exists>pk done. trace w' = trace w @ pk @ probe_events done
                   \<and> (pk = [] \<or> (\<exists>pc. pkgconfig c = Some pc \<and> pk = [PkgConfig ''--cflags'' pc]))
                   \<and> short_circuit (all_probes c) (\<not> missing) done"
        by auto
      with nf en nh w2(1) r show ?thesis by auto
    qed
  qed
qed


lemma sorted_map_const: "sorted (map (\<lambda>x. k :: nat) xs)"
  by (induction xs) auto

lemma sorted_concat_const:
  "sorted (map probe_rank (concat (map (\<lambda>(lib, funs). map CheckFunc funs) fl)))"
proof -
  have "map probe_rank (concat (map (\<lambda>(lib, funs). map CheckFunc funs) fl))
          = map (\<lambda>x. 4) (concat (map (\<lambda>(lib, funs). map CheckFunc funs) fl))"
    by (induction fl) auto
  then show ?thesis by (simp only: sorted_map_const)
qed

lemma all_probes_sorted: "sorted (map probe_rank (all_probes c))"
proof -
  have r: "\<forall>x \<in> set (concat (map (\<lambda>(lib, funs). map CheckFunc funs) (c_functions c))). probe_rank x = 4"
    by auto
  have s: "sorted (map probe_rank (concat (map (\<lambda>(lib, funs). map CheckFunc funs) (c_functions c))))"
    by (rule sorted_concat_const)
  show ?thesis
    unfolding all_probes_def using r s
    by (auto simp: sorted_append comp_def sorted_map_const)
qed

lemma all_probes_before:
  assumes "all_probes c = before @ p # after" "q \<in> set before"
  shows "probe_rank q \<le> probe_rank p"
proof -
  from all_probes_sorted [of c] assms(1)
  have "sorted (map probe_rank before @ probe_rank p # map probe_rank after)" by simp
  with assms(2) show ?thesis by (auto simp: sorted_append)
qed

lemma rank_le_1: "probe_rank q \<le> Suc 0 \<Longrightarrow> q = CheckCallback \<or> (\<exists>y. q = CheckProg y)"
  by (cases q) auto

text \<open>
  C8: the events \<open>has_missing_targets\<close> adds to the trace are, in this order, at most one
  \<open>pkg-config --cflags\<close> query and then the probes it made, which are a prefix of
  \<open>all_probes\<close> (callback, programs, headers, libraries, functions): all of them with the
  answer yes when the result is "present", and, when a probe failed, the probes before the
  failing one with the answer yes and the failing one last.  So nothing after the first
  failing probe is run, and a failing program check leaves no header, library or function
  check in the trace.
\<close>

theorem has_missing_targets_probe_order:
  assumes "has_missing_targets sy c e w = (missing, c', e', w')"
  shows "\<exists>pk done. trace w' = trace w @ pk @ probe_events done
     \<and> (pk = [] \<or> (\<exists>pc. pkgconfig c = Some pc \<and> pk = [PkgConfig ''--cflags'' pc]))
     \<and> (\<not> missing \<longrightarrow> targets_found c \<and> pk = [] \<and> done = []
                       \<or> done = map (\<lambda>p. (p, True)) (all_probes c))
     \<and> (missing \<longrightarrow> done = [] \<and> (opt_help w \<or> opt_no_exec w \<and> \<not> check_only c)
                   \<or> (\<exists>before p after. all_probes c = before @ p # after
                         \<and> done = map (\<lambda>p. (p, True)) before @ [(p, False)]))
     \<and> (\<forall>x. (CheckProg x, False) \<in> set done \<longrightarrow>
           (\<forall>q ok. (q, ok) \<in> set done \<longrightarrow> q = CheckCallback \<or> (\<exists>y. q = CheckProg y)))"
proof -
  let ?goal = "\<lambda>pk done. trace w' = trace w @ pk @ probe_events done
     \<and> (pk = [] \<or> (\<exists>pc. pkgconfig c = Some pc \<and> pk = [PkgConfig ''--cflags'' pc]))
     \<and> (\<not> missing \<longrightarrow> targets_found c \<and> pk = [] \<and> done = []
                       \<or> done = map (\<lambda>p. (p, True)) (all_probes c))
     \<and> (missing \<longrightarrow> done = [] \<and> (opt_help w \<or> opt_no_exec w \<and> \<not> check_only c)
                   \<or> (\<exists>before p after. all_probes c = before @ p # after
                         \<and> done = map (\<lambda>p. (p, True)) before @ [(p, False)]))
     \<and> (\<forall>x. (CheckProg x, False) \<in> set done \<longrightarrow>
           (\<forall>q ok. (q, ok) \<in> set done \<longrightarrow> q = CheckCallback \<or> (\<exists>y. q = CheckProg y)))"
  from has_missing_targets_cases [OF assms]
  consider
    (cached) "targets_found c" "\<not> missing" "w' = w"
  | (noexec) "\<not> check_only c" "opt_no_exec w" "missing" "w' = w"
  | (in_help) "opt_help w" "missing" "\<exists>pk. trace w' = trace w @ pk
                \<and> (pk = [] \<or> (\<exists>pc. pkgconfig c = Some pc \<and> pk = [PkgConfig ''--cflags'' pc]))"
  | (checked) "\<exists>pk done. trace w' = trace w @ pk @ probe_events done
                   \<and> (pk = [] \<or> (\<exists>pc. pkgconfig c = Some pc \<and> pk = [PkgConfig ''--cflags'' pc]))
                   \<and> short_circuit (all_probes c) (\<not> missing) done"
    by blast
  then show ?thesis
  proof cases
    case cached
    then have "?goal [] []" by simp
    then show ?thesis by blast
  next
    case noexec
    then have "?goal [] []" by simp
    then show ?thesis by blast
  next
    case in_help
    then obtain pk where "trace w' = trace w @ pk"
      "pk = [] \<or> (\<exists>pc. pkgconfig c = Some pc \<and> pk = [PkgConfig ''--cflags'' pc])" by blast
    with in_help(1,2) have "?goal pk []" by simp
    then show ?thesis by blast
  next
    case checked
    then obtain pk d where t: "trace w' = trace w @ pk @ probe_events d"
      and pk: "pk = [] \<or> (\<exists>pc. pkgconfig c = Some pc \<and> pk = [PkgConfig ''--cflags'' pc])"
      and sc: "short_circuit (all_probes c) (\<not> missing) d" by blast
    have "?goal pk d"
    proof (cases missing)
      case False
      with sc have d: "d = map (\<lambda>p. (p, True)) (all_probes c)"
        by (simp add: short_circuit_def)
      then have "\<forall>x. (CheckProg x, False) \<notin> set d" by auto
      with t pk False d show ?thesis by simp
    next
      case True
      with sc obtain before p after where
        b: "all_probes c = before @ p # after" "d = map (\<lambda>p. (p, True)) before @ [(p, False)]"
        by (auto simp: short_circuit_def)
      have "\<forall>x. (CheckProg x, False) \<in> set d \<longrightarrow>
           (\<forall>q ok. (q, ok) \<in> set d \<longrightarrow> q = CheckCallback \<or> (\<exists>y. q = CheckProg y))"
      proof (intro allI impI)
        fix x q ok
        assume "(CheckProg x, False) \<in> set d" and q: "(q, ok) \<in> set d"
        with b(2) have p: "p = CheckProg x" by auto
        from q b(2) have "q \<in> set before \<or> q = p" by auto
        with all_probes_before [OF b(1)] p have "probe_rank q \<le> Suc 0" by auto
        then show "q = CheckCallback \<or> (\<exists>y. q = CheckProg y)" by (rule rank_le_1)
      qed
      with t pk True b show ?thesis by blast
    qed
    then show ?thesis by blast
  qed
qed

theorem has_missing_targets_probe_order_witness:
  "has_missing_targets no_cmake_sys example_component example_env example_world
     = (True, example_component, example_env,
        example_world\<lparr>trace := [Probed (CheckProg ''cmake'') False]\<rparr>)
   \<and> (\<exists>pk done. [Probed (CheckProg ''cmake'') False] = pk @ probe_events done
         \<and> (\<exists>before p after. all_probes example_component = before @ p # after
               \<and> done = map (\<lambda>p. (p, True)) before @ [(p, False)]))"
proof -
  have ev: "has_missing_targets no_cmake_sys example_component example_env example_world
     = (True, example_component, example_env,
        example_world\<lparr>trace := [Probed (CheckProg ''cmake'') False]\<rparr>)"
    by (simp add: has_missing_targets_def example_component_def example_world_def Let_def
          parse_config_def run_checks_def run_probe_def no_cmake_sys_def example_sys_def emit_def)
  have m: "\<not> opt_help example_world" "\<not> opt_no_exec example_world" "trace example_world = []"
    by (simp_all add: example_world_def)
  have pn: "pkgconfig example_component = None"
    by (simp add: example_component_def)
  from has_missing_targets_probe_order [OF ev] obtain pk d where
    t: "trace (example_world\<lparr>trace := [Probed (CheckProg ''cmake'') False]\<rparr>)
          = trace example_world @ pk @ probe_events d"
    and pk: "pk = [] \<or> (\<exists>pc. pkgconfig example_component = Some pc \<and> pk = [PkgConfig ''--cflags'' pc])"
    and ms: "True \<longrightarrow> d = [] \<and> (opt_help example_world \<or> opt_no_exec example_world \<and> \<not> check_only example_component)
                   \<or> (\<exists>before p after. all_probes example_component = before @ p # after
                         \<and> d = map (\<lambda>p. (p, True)) before @ [(p, False)])"
    by blast
  from pk pn have "pk = []" by simp
  with t m have t': "[Probed (CheckProg ''cmake'') False] = pk @ probe_events d" by simp
  from ms m have "\<exists>before p after. all_probes example_component = before @ p # after
                         \<and> d = map (\<lambda>p. (p, True)) before @ [(p, False)]"
    by blast
  with t' have "\<exists>pk done. [Probed (CheckProg ''cmake'') False] = pk @ probe_events done
         \<and> (\<exists>before p after. all_probes example_component = before @ p # after
               \<and> done = map (\<lambda>p. (p, True)) before @ [(p, False)])"
    by blast
  with ev show ?thesis by blast
qed

lemma short_circuit_hd:
  assumes "short_circuit ps ok done" "ps \<noteq> []"
  shows "\<exists>b rest. done = (hd ps, b) # rest"
proof (cases ok)
  case True
  with assms show ?thesis by (cases ps) (auto simp: short_circuit_def)
next
  case False
  with assms(1) obtain before p after where
    "ps = before @ p # after" "done = map (\<lambda>p. (p, True)) before @ [(p, False)]"
    by (auto simp: short_circuit_def)
  then show ?thesis by (cases before) auto
qed

text \<open>
  C6: a call that returns "present" leaves \<open>targets_found\<close> set, and from then on every
  call, whatever the outside answers, returns "present" at once and changes nothing; a call
  that returns "missing" leaves the component as it was, \<open>targets_found\<close> unset, and a
  later call with checks enabled runs the first probe again.
\<close>

theorem has_missing_targets_cache:
  assumes "has_missing_targets sy c e w = (missing, c', e', w')"
  shows "(\<not> missing \<longrightarrow>
            targets_found c' \<and> (\<forall>sy2 e2 w2. has_missing_targets sy2 c' e2 w2 = (False, c', e2, w2)))
       \<and> (missing \<longrightarrow>
            \<not> targets_found c' \<and> c' = c
            \<and> (\<forall>sy2 e2 (w2::world).
                  \<not> opt_help w2 \<and> (check_only c \<or> \<not> opt_no_exec w2) \<and> all_probes c \<noteq> [] \<longrightarrow>
                  (\<exists>pk ok rest.
                      trace (snd (snd (snd (has_missing_targets sy2 c' e2 w2))))
                        = trace w2 @ pk @ Probed (hd (all_probes c)) ok # rest
                      \<and> list_all is_pkg_config pk)))"
proof (intro conjI impI)
  assume "\<not> missing"
  with has_missing_targets_cases [OF assms] show "targets_found c'" by auto
  then show "\<forall>sy2 e2 w2. has_missing_targets sy2 c' e2 w2 = (False, c', e2, w2)"
    by (simp add: has_missing_targets_def)
next
  assume m: missing
  with has_missing_targets_cases [OF assms] show nf: "\<not> targets_found c'" and eq: "c' = c"
    by auto
  show "\<forall>sy2 e2 (w2::world).
                  \<not> opt_help w2 \<and> (check_only c \<or> \<not> opt_no_exec w2) \<and> all_probes c \<noteq> [] \<longrightarrow>
                  (\<exists>pk ok rest.
                      trace (snd (snd (snd (has_missing_targets sy2 c' e2 w2))))
                        = trace w2 @ pk @ Probed (hd (all_probes c)) ok # rest
                      \<and> list_all is_pkg_config pk)"
  proof (intro allI impI)
    fix sy2 e2 and w2 :: world
    assume h: "\<not> opt_help w2 \<and> (check_only c \<or> \<not> opt_no_exec w2) \<and> all_probes c \<noteq> []"
    obtain m2 c2 e2' w2' where r: "has_missing_targets sy2 c e2 w2 = (m2, c2, e2', w2')"
      by (cases "has_missing_targets sy2 c e2 w2")
    from has_missing_targets_cases [OF r] h nf eq
    obtain pk d where t: "trace w2' = trace w2 @ pk @ probe_events d"
      and pk: "pk = [] \<or> (\<exists>pc. pkgconfig c = Some pc \<and> pk = [PkgConfig ''--cflags'' pc])"
      and sc: "short_circuit (all_probes c) (\<not> m2) d"
      by auto
    from short_circuit_hd [OF sc] h obtain b rest where "d = (hd (all_probes c), b) # rest"
      by blast
    with t have "trace w2' = trace w2 @ pk @ Probed (hd (all_probes c)) b # probe_events rest"
      by (simp add: probe_events_def)
    moreover from pk have "list_all is_pkg_config pk" by auto
    ultimately show "\<exists>pk ok rest.
                      trace (snd (snd (snd (has_missing_targets sy2 c' e2 w2))))
                        = trace w2 @ pk @ Probed (hd (all_probes c)) ok # rest
                      \<and> list_all is_pkg_config pk"
      using r eq by auto
  qed
qed

theorem has_missing_targets_cache_witness:
  "fst (has_missing_targets no_cmake_sys example_component example_env example_world) = True
   \<and> \<not> targets_found (fst (snd (has_missing_targets no_cmake_sys example_component example_env
          example_world)))
   \<and> fst (has_missing_targets example_sys example_component example_env example_world) = False
   \<and> has_missing_targets no_cmake_sys
        (fst (snd (has_missing_targets example_sys example_component example_env example_world)))
        example_env example_world
      = (False, fst (snd (has_missing_targets example_sys example_component example_env example_world)),
         example_env, example_world)"
proof -
  obtain m1 c1 e1 w1 where a: "has_missing_targets no_cmake_sys example_component example_env example_world = (m1, c1, e1, w1)"
    by (cases "has_missing_targets no_cmake_sys example_component example_env example_world")
  have m1: "m1 = True"
    using a by (simp add: has_missing_targets_def example_component_def example_world_def Let_def
          parse_config_def run_checks_def run_probe_def no_cmake_sys_def example_sys_def emit_def)
  obtain m2 c2 e2 w2 where b: "has_missing_targets example_sys example_component example_env example_world = (m2, c2, e2, w2)"
    by (cases "has_missing_targets example_sys example_component example_env example_world")
  have m2: "m2 = False"
    using b by (simp add: has_missing_targets_def example_component_def example_world_def Let_def
          parse_config_def run_checks_def run_probe_def example_sys_def emit_def split: prod.splits)
  from has_missing_targets_cache [OF a] m1 have "\<not> targets_found c1" by blast
  moreover from has_missing_targets_cache [OF b] m2
  have "has_missing_targets no_cmake_sys c2 example_env example_world = (False, c2, example_env, example_world)"
    by blast
  ultimately show ?thesis using a b m1 m2 by simp
qed


section \<open>Theorems about set_environment\<close>

lemma env_le_refl [simp]: "env_le e e"
  by (simp add: env_le_def)


lemma env_eqI: "lists e = lists e' \<Longrightarrow> scalars e = scalars e' \<Longrightarrow> osenv e = osenv e' \<Longrightarrow> e = (e'::env)"
  by simp









lemma same_files_refl [simp]: "same_files w w"
  by (simp add: same_files_def)


lemma same_files_emit [simp]: "same_files w (emit ev w)"
  by (simp add: same_files_def emit_def)

















lemma osenv_AppendUnique [simp]: "osenv (AppendUnique k v e) = osenv e"
  by (simp add: AppendUnique_def)

lemma osenv_append_all [simp]: "osenv (append_all k vs e) = osenv e"
  unfolding append_all_def by (induction vs arbitrary: e) simp_all

section \<open>Updates of one list\<close>

lemma set_dedup [simp]: "set (dedup key xs) = set xs"
  by (simp add: dedup_def)

lemma distinct_dedup [simp]: "distinct (dedup key xs)"
  by (simp add: dedup_def)

lemma remdups_absorb: "set xs \<subseteq> set ys \<Longrightarrow> remdups (xs @ ys) = remdups ys"
  by (induction xs) auto

lemma dedup_absorb:
  assumes "distinct l" and "set vs \<subseteq> set l" and "endswith key ''PATH''"
  shows "dedup key (l @ vs) = l"
proof -
  from assms(2) have "remdups (rev vs @ rev l) = remdups (rev l)"
    by (intro remdups_absorb) simp
  also from assms(1) have "\<dots> = rev l" by (simp add: distinct_remdups_id)
  finally show ?thesis using assms(3) by (simp add: dedup_def)
qed

lemma list_ok_id: "list_ok ex dex (\<lambda>l. l)"
  by (simp add: list_ok_def list_grows_def list_exact_def list_dexact_def)


lemma list_ok_dedup:
  assumes "dex \<longrightarrow> endswith key ''PATH''"
  shows "list_ok False dex (\<lambda>l. dedup key (l @ vs))"
proof -
  have g: "list_grows (\<lambda>l. dedup key (l @ vs))"
    by (auto simp: list_grows_def)
  have d: "list_distinct (\<lambda>l. dedup key (l @ vs))"
    by (simp add: list_distinct_def)
  have "list_dexact (\<lambda>l. dedup key (l @ vs))" if "endswith key ''PATH''"
    unfolding list_dexact_def using dedup_absorb [OF _ _ that] by auto
  with g d assms show ?thesis by (auto simp: list_ok_def)
qed

lemma list_ok_comp:
  assumes a: "list_ok ex dex g1" and b: "list_ok ex dex g2"
  shows "list_ok ex dex (\<lambda>l. g2 (g1 l))"
proof -
  from a have g1: "list_grows g1" by (simp add: list_ok_def)
  from b have g2: "list_grows g2" by (simp add: list_ok_def)
  have up1: "set l \<subseteq> set (g1 l)" for l using g1 by (simp add: list_grows_def)
  have up2: "set l \<subseteq> set (g2 l)" for l using g2 by (simp add: list_grows_def)
  have ab1: "set (g1 l') = set l'" if "set (g1 l) \<subseteq> set l'" for l l'
    using g1 that unfolding list_grows_def by blast
  have ab2: "set (g2 l') = set l'" if "set (g2 l) \<subseteq> set l'" for l l'
    using g2 that unfolding list_grows_def by blast
  have ab: "set (g2 (g1 l')) = set l'" if h: "set (g2 (g1 l)) \<subseteq> set l'" for l l'
  proof -
    from up2 [of "g1 l"] h have "set (g1 l) \<subseteq> set l'" by blast
    then have s1: "set (g1 l') = set l'" by (rule ab1)
    with h have "set (g2 (g1 l)) \<subseteq> set (g1 l')" by simp
    then have "set (g2 (g1 l')) = set (g1 l')" by (rule ab2)
    with s1 show ?thesis by simp
  qed
  have grows: "list_grows (\<lambda>l. g2 (g1 l))"
    unfolding list_grows_def
  proof (intro conjI allI impI)
    fix l show "set l \<subseteq> set (g2 (g1 l))" using up1 [of l] up2 [of "g1 l"] by blast
  next
    fix l :: "string list" assume "distinct l"
    with g1 have "distinct (g1 l)" by (simp add: list_grows_def)
    with g2 show "distinct (g2 (g1 l))" by (simp add: list_grows_def)
  next
    fix l l' assume "set (g2 (g1 l)) \<subseteq> set l'"
    then show "set (g2 (g1 l')) = set l'" by (rule ab)
  qed
  have exact: "list_exact (\<lambda>l. g2 (g1 l))" if e1: "list_exact g1" and e2: "list_exact g2"
    unfolding list_exact_def
  proof (intro allI impI)
    fix l l' assume h: "set (g2 (g1 l)) \<subseteq> set l'"
    from up2 [of "g1 l"] h have "set (g1 l) \<subseteq> set l'" by blast
    with e1 have "g1 l' = l'" unfolding list_exact_def by blast
    moreover from e2 h have "g2 l' = l'" unfolding list_exact_def by blast
    ultimately show "g2 (g1 l') = l'" by simp
  qed
  have dexact: "list_dexact (\<lambda>l. g2 (g1 l))" if e1: "list_dexact g1" and e2: "list_dexact g2"
    unfolding list_dexact_def
  proof (intro allI impI)
    fix l l' :: "string list" assume h: "set (g2 (g1 l)) \<subseteq> set l'" and d: "distinct l'"
    from up2 [of "g1 l"] h have "set (g1 l) \<subseteq> set l'" by blast
    with e1 d have "g1 l' = l'" unfolding list_dexact_def by blast
    moreover from e2 h d have "g2 l' = l'" unfolding list_dexact_def by blast
    ultimately show "g2 (g1 l') = l'" by simp
  qed
  have ed: "list_exact (\<lambda>l. g2 (g1 l)) \<or> list_distinct (\<lambda>l. g2 (g1 l))"
  proof (cases "list_distinct g2")
    case True
    then show ?thesis by (simp add: list_distinct_def)
  next
    case False
    with b have e2: "list_exact g2" by (auto simp: list_ok_def)
    show ?thesis
    proof (cases "list_exact g1")
      case True
      from exact [OF True e2] show ?thesis by simp
    next
      case False
      with a have "list_distinct g1" by (auto simp: list_ok_def)
      with g2 have "list_distinct (\<lambda>l. g2 (g1 l))"
        by (simp add: list_distinct_def list_grows_def)
      then show ?thesis by simp
    qed
  qed
  from a b exact have "ex \<longrightarrow> list_exact (\<lambda>l. g2 (g1 l))" by (simp add: list_ok_def)
  moreover from a b dexact have "dex \<longrightarrow> list_dexact (\<lambda>l. g2 (g1 l))" by (simp add: list_ok_def)
  ultimately show ?thesis using grows ed by (simp add: list_ok_def)
qed

lemma count_list_distinct: "distinct xs \<Longrightarrow> count_list xs x = (if x \<in> set xs then 1 else 0)"
  by (induction xs) auto

lemma list_ok_twice:
  assumes "list_ok ex dex g"
  shows "count_list (g (g l)) x = count_list (g l) x"
    and "ex \<or> dex \<Longrightarrow> g (g l) = g l"
    and "distinct l \<Longrightarrow> distinct (g l)"
proof -
  from assms have gr: "list_grows g" by (simp add: list_ok_def)
  then have s: "set (g (g l)) = set (g l)" unfolding list_grows_def by blast
  from assms have "list_exact g \<or> list_distinct g" by (simp add: list_ok_def)
  then show "count_list (g (g l)) x = count_list (g l) x"
  proof
    assume "list_exact g"
    then have "g (g l) = g l" unfolding list_exact_def by blast
    then show ?thesis by simp
  next
    assume "list_distinct g"
    then have "distinct (g (g l))" "distinct (g l)" by (simp_all add: list_distinct_def)
    with s show ?thesis by (simp add: count_list_distinct)
  qed
  show "g (g l) = g l" if "ex \<or> dex"
  proof (cases "list_exact g")
    case True
    then show ?thesis unfolding list_exact_def by blast
  next
    case False
    with assms have d: "list_distinct g" and "\<not> ex" by (auto simp: list_ok_def)
    with that assms have "list_dexact g" by (auto simp: list_ok_def)
    moreover from d have "distinct (g l)" by (simp add: list_distinct_def)
    ultimately show ?thesis unfolding list_dexact_def by blast
  qed
  show "distinct (g l)" if "distinct l"
    using gr that by (simp add: list_grows_def)
qed

section \<open>Updates of the environment, list by list\<close>

lemma acts_id: "acts ex dex k (\<lambda>e. e)"
  unfolding acts_def using list_ok_id [of ex dex] by auto

lemma acts_comp:
  assumes "acts ex dex k f1" and "acts ex dex k f2"
  shows "acts ex dex k (\<lambda>e. f2 (f1 e))"
proof -
  from assms(1) obtain g1 where g1: "list_ok ex dex g1" "\<And>e. lists (f1 e) k = g1 (lists e k)"
    and o1: "\<And>e. osenv (f1 e) = osenv e \<and> scalars (f1 e) = scalars e"
    unfolding acts_def by blast
  from assms(2) obtain g2 where g2: "list_ok ex dex g2" "\<And>e. lists (f2 e) k = g2 (lists e k)"
    and o2: "\<And>e. osenv (f2 e) = osenv e \<and> scalars (f2 e) = scalars e"
    unfolding acts_def by blast
  have "list_ok ex dex (\<lambda>l. g2 (g1 l))" by (rule list_ok_comp [OF g1(1) g2(1)])
  moreover have "\<forall>e. lists (f2 (f1 e)) k = g2 (g1 (lists e k))" by (simp add: g1(2) g2(2))
  moreover have "\<forall>e. osenv (f2 (f1 e)) = osenv e \<and> scalars (f2 (f1 e)) = scalars e"
    by (simp add: o1 o2)
  ultimately show ?thesis unfolding acts_def by blast
qed

lemma acts_foldl:
  assumes "\<And>v. v \<in> set vs \<Longrightarrow> acts ex dex k (h v)"
  shows "acts ex dex k (\<lambda>e. foldl (\<lambda>e v. h v e) e vs)"
  using assms
proof (induction vs rule: rev_induct)
  case Nil
  show ?case by (simp add: acts_id)
next
  case (snoc v vs)
  have a: "acts ex dex k (\<lambda>e. foldl (\<lambda>e v. h v e) e vs)"
    by (rule snoc.IH) (simp add: snoc.prems)
  have b: "acts ex dex k (h v)" by (rule snoc.prems) simp
  from acts_comp [OF a b] show ?case by simp
qed



lemma acts_merge_flag:
  assumes "ex \<longrightarrow> key \<noteq> k \<or> vs = []" and "dex \<longrightarrow> endswith k ''PATH''"
  shows "acts ex dex k (merge_flag (key, vs))"
proof (cases "key = k \<and> vs \<noteq> []")
  case True
  with assms(1) have ex: "ex = False" by auto
  have "list_ok False dex (\<lambda>l. dedup k (l @ vs))" by (rule list_ok_dedup [OF assms(2)])
  moreover have "\<forall>e. lists (merge_flag (key, vs) e) k = dedup k (lists e k @ vs)"
    using True by (simp add: merge_flag_def)
  moreover have "\<forall>e. osenv (merge_flag (key, vs) e) = osenv e
                   \<and> scalars (merge_flag (key, vs) e) = scalars e"
    by (simp add: merge_flag_def)
  ultimately show ?thesis unfolding acts_def ex by blast
next
  case False
  have "list_ok ex dex (\<lambda>l. l)" by (rule list_ok_id)
  moreover have "\<forall>e. lists (merge_flag (key, vs) e) k = lists e k"
    using False by (auto simp: merge_flag_def)
  moreover have "\<forall>e. osenv (merge_flag (key, vs) e) = osenv e
                   \<and> scalars (merge_flag (key, vs) e) = scalars e"
    by (simp add: merge_flag_def)
  ultimately show ?thesis unfolding acts_def by blast
qed

lemma acts_merge_flags:
  assumes "ex \<longrightarrow> (\<forall>vs. (k, vs) \<in> set flags \<longrightarrow> vs = [])" and "dex \<longrightarrow> endswith k ''PATH''"
  shows "acts ex dex k (merge_flags flags)"
  unfolding merge_flags_def
proof (rule acts_foldl [of flags ex dex k merge_flag])
  fix kv assume m: "kv \<in> set flags"
  obtain key vs where kv: "kv = (key, vs)" by (cases kv)
  with m assms(1) have "ex \<longrightarrow> key \<noteq> k \<or> vs = []" by auto
  from acts_merge_flag [OF this assms(2)] kv show "acts ex dex k (merge_flag kv)" by simp
qed


lemma acts_twice:
  assumes "acts ex dex k f"
  shows "count_list (lists (f (f e)) k) x = count_list (lists (f e) k) x"
    and "ex \<or> dex \<Longrightarrow> lists (f (f e)) k = lists (f e) k"
    and "distinct (lists e k) \<Longrightarrow> distinct (lists (f e) k)"
    and "set (lists e k) \<subseteq> set (lists (f e) k)"
    and "osenv (f e) = osenv e" and "scalars (f e) = scalars e"
proof -
  from assms obtain g where g: "list_ok ex dex g" "\<And>e. lists (f e) k = g (lists e k)"
    and o: "\<And>e. osenv (f e) = osenv e \<and> scalars (f e) = scalars e"
    unfolding acts_def by blast
  show "count_list (lists (f (f e)) k) x = count_list (lists (f e) k) x"
    using list_ok_twice(1) [OF g(1)] by (simp add: g(2))
  show "lists (f (f e)) k = lists (f e) k" if "ex \<or> dex"
    using list_ok_twice(2) [OF g(1) that] by (simp add: g(2))
  show "distinct (lists (f e) k)" if "distinct (lists e k)"
    using list_ok_twice(3) [OF g(1) that] by (simp add: g(2))
  from g(1) show "set (lists e k) \<subseteq> set (lists (f e) k)"
    by (simp add: g(2) list_ok_def list_grows_def)
  from o show "osenv (f e) = osenv e" "scalars (f e) = scalars e" by simp_all
qed


section \<open>Two calls of set_environment\<close>

lemma osenv_merge_flags [simp]: "osenv (merge_flags flags e) = osenv e"
proof -
  have "acts False False ''k'' (merge_flags flags)" by (rule acts_merge_flags) simp_all
  from acts_twice(5) [OF this] show ?thesis .
qed









lemma lists_AppendENVPath [simp]: "lists (AppendENVPath k v e) = lists e"
  by (simp add: AppendENVPath_def)


















section \<open>Checking and configuring run no command\<close>

lemma checks_only_refl [simp]: "checks_only w w"
  by (simp add: checks_only_def)

lemma checks_only_trans: "checks_only w w1 \<Longrightarrow> checks_only w1 w2 \<Longrightarrow> checks_only w w2"
  unfolding checks_only_def using grows_trans by auto

lemma checks_only_emit: "is_check ev \<Longrightarrow> checks_only w (emit ev w)"
  by (simp add: checks_only_def grows_def emit_def)

lemma checks_only_no_exec [simp]: "checks_only w (w\<lparr>opt_no_exec := b\<rparr>)"
  by (simp add: checks_only_def grows_def)

lemma checks_only_no_exec_trans: "checks_only w w' \<Longrightarrow> checks_only w (w'\<lparr>opt_no_exec := b\<rparr>)"
  by (simp add: checks_only_def grows_def)

lemma checks_only_no_exec_from: "checks_only (w\<lparr>opt_no_exec := b\<rparr>) w' \<Longrightarrow> checks_only w w'"
  by (simp add: checks_only_def grows_def)

lemma parse_config_checks:
  "parse_config sy c opts e w = (e', w') \<Longrightarrow> checks_only w w'"
  by (auto simp: parse_config_def ParseConfig_def checks_only_emit
           split: option.splits prod.splits if_splits)

lemma run_probe_checks: "run_probe sy p e w = (ok, e', w') \<Longrightarrow> checks_only w w'"
  by (auto simp: run_probe_def checks_only_emit split: prod.splits)

lemma check_each_checks: "check_each sy ps e w = (ok, e', w') \<Longrightarrow> checks_only w w'"
proof (induction ps arbitrary: e w)
  case Nil
  then show ?case by simp
next
  case (Cons p ps)
  obtain ok1 e1 w1 where p: "run_probe sy p e w = (ok1, e1, w1)"
    by (cases "run_probe sy p e w") auto
  show ?case
  proof (cases ok1)
    case True
    with Cons.prems p have "check_each sy ps e1 w1 = (ok, e', w')" by simp
    from checks_only_trans [OF run_probe_checks [OF p] Cons.IH [OF this]] show ?thesis .
  next
    case False
    with Cons.prems p have "w' = w1" by simp
    with run_probe_checks [OF p] show ?thesis by simp
  qed
qed

lemma check_libs_checks: "check_libs sy c ls e w = (ok, e', w') \<Longrightarrow> checks_only w w'"
proof (induction ls arbitrary: e w)
  case Nil
  then show ?case by simp
next
  case (Cons l ls)
  let ?e1 = "if truthy (libs_cc c)
                then Replace ''CC'' (libs_cc c)
                       (Replace (upper (name c) @ ''_PREFIX'') (component_prefix c) e)
                else e"
  obtain ok1 e1 w1 where p: "run_probe sy (CheckLib l) ?e1 w = (ok1, e1, w1)"
    by (cases "run_probe sy (CheckLib l) ?e1 w") auto
  show ?case
  proof (cases ok1)
    case True
    with Cons.prems p
    have "check_libs sy c ls (Replace ''CC'' (Some (env_subst sy e ''$CC'')) e1) w1 = (ok, e', w')"
      by (simp add: Let_def)
    from checks_only_trans [OF run_probe_checks [OF p] Cons.IH [OF this]] show ?thesis .
  next
    case False
    with Cons.prems p have "w' = w1" by (simp add: Let_def)
    with run_probe_checks [OF p] show ?thesis by simp
  qed
qed

lemma check_functions_checks:
  "check_functions sy fl e cenv w = (ok, e', w') \<Longrightarrow> checks_only w w'"
proof (induction fl arbitrary: e cenv w)
  case Nil
  then show ?case by simp
next
  case (Cons lf fl)
  obtain lib funs where lf: "lf = (lib, funs)" by (cases lf)
  let ?base = "case cenv of None \<Rightarrow> e | Some ce \<Rightarrow> ce"
  obtain ok1 e1 w1 where p:
    "check_each sy (map CheckFunc funs) (AppendUnique ''LIBS'' lib ?base) w = (ok1, e1, w1)"
    by (cases "check_each sy (map CheckFunc funs) (AppendUnique ''LIBS'' lib ?base) w") auto
  show ?case
  proof (cases ok1)
    case True
    with Cons.prems p lf
    have "\<exists>e2 c2. check_functions sy fl e2 c2 w1 = (ok, e', w')"
      by (cases cenv) (auto simp: Let_def)
    then obtain e2 c2 where "check_functions sy fl e2 c2 w1 = (ok, e', w')" by blast
    from checks_only_trans [OF check_each_checks [OF p] Cons.IH [OF this]] show ?thesis .
  next
    case False
    with Cons.prems p lf have "w' = w1" by (cases cenv) (auto simp: Let_def)
    with check_each_checks [OF p] show ?thesis by simp
  qed
qed

lemma run_checks_checks: "run_checks sy c e w = (ok, e', w') \<Longrightarrow> checks_only w w'"
  unfolding run_checks_def
  apply (auto split: prod.splits if_splits
           dest!: run_probe_checks check_each_checks check_libs_checks check_functions_checks)
  apply (blast intro: checks_only_trans)+
  done

lemma has_missing_targets_checks:
  "has_missing_targets sy c e w = (m, c', e', w') \<Longrightarrow> checks_only w w'"
  unfolding has_missing_targets_def Let_def
  apply (auto split: prod.splits if_splits
           dest!: parse_config_checks run_checks_checks)
  apply (blast intro: checks_only_trans checks_only_no_exec_trans checks_only_no_exec_from)+
  done

lemma has_missing_targets_fields:
  "has_missing_targets sy c e w = (m, c', e', w') \<Longrightarrow> c' = c \<or> c' = c\<lparr>targets_found := True\<rparr>"
  unfolding has_missing_targets_def Let_def
  by (auto split: prod.splits if_splits)

lemma set_environment_checks:
  "set_environment sy c e nl w = (res, e', w') \<Longrightarrow> checks_only w w'"
  unfolding set_environment_def Let_def
  apply (auto split: prod.splits if_splits option.splits
           dest!: parse_config_checks)
  apply (blast intro: checks_only_trans)+
  done

lemma set_environment_raises:
  "set_environment sy c e nl w = (Inl x, e', w') \<Longrightarrow> \<not> use_installed c \<and> component_prefix c = None"
  unfolding set_environment_def Let_def
  by (auto split: prod.splits if_splits option.splits)

lemma ensure_dir_exists_checks:
  "ensure_dir_exists sy d dry w = (res, w') \<Longrightarrow> checks_only w w'"
  by (auto simp: ensure_dir_exists_def checks_only_def grows_def emit_def split: if_splits)

lemma has_missing_targets_found:
  "has_missing_targets sy c e w = (m, c', e', w') \<Longrightarrow> \<exists>b. c' = c\<lparr>targets_found := b\<rparr>"
proof -
  assume "has_missing_targets sy c e w = (m, c', e', w')"
  from has_missing_targets_fields [OF this]
  have "c' = c\<lparr>targets_found := targets_found c\<rparr> \<or> c' = c\<lparr>targets_found := True\<rparr>" by simp
  then show ?thesis by blast
qed

lemma prebuilt_search_checks:
  "prebuilt_search sy renv c ps w = (found, c', w')
   \<Longrightarrow> checks_only w w' \<and> (\<exists>b. c' = c\<lparr>targets_found := b\<rparr>)"
proof (induction ps arbitrary: c w)
  case Nil
  then have "c' = c\<lparr>targets_found := targets_found c\<rparr>" "w' = w" by simp_all
  then show ?case by (metis checks_only_refl)
next
  case (Cons p ps)
  let ?ipath = "if exists w (path_join p ''include'') then Some (path_join p ''include'') else None"
  let ?lpath = "if exists w (path_join p ''lib'') then Some (path_join p ''lib'') else None"
  show ?case
  proof (cases "?ipath = None \<and> ?lpath = None")
    case True
    with Cons.prems have "prebuilt_search sy renv c ps w = (found, c', w')"
      by (simp add: Let_def split: if_splits)
    from Cons.IH [OF this] show ?thesis .
  next
    case False
    let ?e1 = "case ?ipath of Some i \<Rightarrow> AppendUnique ''CPPPATH'' i renv | None \<Rightarrow> renv"
    let ?e2 = "case ?lpath of Some l \<Rightarrow> AppendUnique ''LIBPATH'' l ?e1 | None \<Rightarrow> ?e1"
    obtain m c1 e1 w1 where h: "has_missing_targets sy c ?e2 w = (m, c1, e1, w1)"
      by (cases "has_missing_targets sy c ?e2 w") auto
    from has_missing_targets_found [OF h] obtain b where c1: "c1 = c\<lparr>targets_found := b\<rparr>" by blast
    note w1 = has_missing_targets_checks [OF h]
    show ?thesis
    proof (cases m)
      case True
      with Cons.prems False h have "prebuilt_search sy renv c1 ps w1 = (found, c', w')"
        by (simp add: Let_def split: if_splits)
      from Cons.IH [OF this] obtain b' where "checks_only w1 w'" "c' = c1\<lparr>targets_found := b'\<rparr>"
        by blast
      with c1 w1 have "checks_only w w'" "c' = c\<lparr>targets_found := b'\<rparr>"
        by (auto intro: checks_only_trans)
      then show ?thesis by blast
    next
      case m: False
      with Cons.prems False h have "c' = c1" "w' = w1"
        by (simp_all add: Let_def split: if_splits)
      with c1 w1 show ?thesis by blast
    qed
  qed
qed

lemma get_prebuilt_path_frame:
  assumes "get_prebuilt_path sy c nm r w = (found, c', r', w')"
  shows "checks_only w w'" "\<exists>b. c' = c\<lparr>targets_found := b\<rparr>"
    "defined r' = defined r" "required r' = required r" "errors r' = errors r"
proof -
  show "checks_only w w'" "\<exists>b. c' = c\<lparr>targets_found := b\<rparr>"
  proof (atomize (full), cases "prebuilt_paths r nm")
    case None
    with assms show "checks_only w w' \<and> (\<exists>b. c' = c\<lparr>targets_found := b\<rparr>)"
      by (auto simp: get_prebuilt_path_def Let_def split: prod.splits dest!: prebuilt_search_checks)
  next
    case (Some a)
    with assms have "c' = c\<lparr>targets_found := targets_found c\<rparr>" "w' = w"
      by (simp_all add: get_prebuilt_path_def)
    then show "checks_only w w' \<and> (\<exists>b. c' = c\<lparr>targets_found := b\<rparr>)"
      by (metis checks_only_refl)
  qed
  from assms show "defined r' = defined r" "required r' = required r" "errors r' = errors r"
    by (auto simp: get_prebuilt_path_def Let_def split: prod.splits option.splits)
qed

lemma get_prefixes_frame:
  assumes "get_prefixes nm prebuilt r = ((cp, pre), r')"
  shows "cp \<noteq> None" "truthy prebuilt \<Longrightarrow> cp = prebuilt"
    "defined r' = defined r" "required r' = required r" "errors r' = errors r"
  using assms
  by (auto simp: get_prefixes_def Let_def save_component_prefix_def truthy_def
           split: if_splits option.splits)

lemma get_src_path_frame:
  assumes "get_src_path nm r = (p, r')"
  shows "defined r' = defined r" "required r' = required r" "errors r' = errors r"
  using assms
  by (auto simp: get_src_path_def Let_def split: option.splits)

lemma configure_frame:
  assumes d: "defined r nm = Some c" and cf: "configure sy nm r w = (res, r1, w1)"
  shows "checks_only w w1 \<and> required r1 = required r \<and> errors r1 = errors r \<and>
      (\<exists>c1. defined r1 = (defined r)(nm \<mapsto> c1) \<and> use_installed c1 = use_installed c
        \<and> component_prefix c1 \<noteq> None \<and> retriever c1 = retriever c
        \<and> (retriever c = None \<longrightarrow> prebuilt_path c1 = Some ''/usr''))"
proof -
  let ?pp = "if retriever c = None then (Some ''/usr'', c, r, w) else get_prebuilt_path sy c (name c) r w"
  obtain prebuilt ca ra wa where pp: "?pp = (prebuilt, ca, ra, wa)" by (cases ?pp) auto
  have a: "checks_only w wa \<and> (\<exists>b. ca = c\<lparr>targets_found := b\<rparr>) \<and> defined ra = defined r
           \<and> required ra = required r \<and> errors ra = errors r
           \<and> (retriever c = None \<longrightarrow> prebuilt = Some ''/usr'')"
  proof (cases "retriever c = None")
    case True
    with pp have "ca = c\<lparr>targets_found := targets_found c\<rparr>" "ra = r" "wa = w" "prebuilt = Some ''/usr''"
      by simp_all
    then show ?thesis by (metis checks_only_refl)
  next
    case False
    with pp have "get_prebuilt_path sy c (name c) r w = (prebuilt, ca, ra, wa)" by simp
    from get_prebuilt_path_frame [OF this] False show ?thesis by auto
  qed
  then obtain b where ca: "ca = c\<lparr>targets_found := b\<rparr>" by blast
  obtain cp pre rb where gp: "get_prefixes (name ca) prebuilt ra = ((cp, pre), rb)"
    by (cases "get_prefixes (name ca) prebuilt ra") auto
  note gpf = get_prefixes_frame [OF gp]
  let ?sp = "if retriever ca \<noteq> None
             then (case get_src_path (name ca) rb of (p, r3) \<Rightarrow> (Some p, r3)) else (None, rb)"
  obtain src rc where sp: "?sp = (src, rc)" by (cases ?sp) auto
  have rc: "defined rc = defined r \<and> required rc = required r \<and> errors rc = errors r"
  proof (cases "retriever ca \<noteq> None")
    case True
    obtain p r3 where g: "get_src_path (name ca) rb = (p, r3)" by (cases "get_src_path (name ca) rb")
    with sp True have "rc = r3" by simp
    with get_src_path_frame [OF g] gpf a show ?thesis by simp
  next
    case False
    with sp have "rc = rb" by simp
    with gpf a show ?thesis by simp
  qed
  let ?c2 = "ca\<lparr>prebuilt_path := prebuilt, component_prefix := cp,
                  prefix_dir := pre, src_path := src, build_path := src\<rparr>"
  show ?thesis
  proof (cases "out_of_src_build ?c2")
    case True
    let ?bp = "path_join (reg_build_dir rc) (name ?c2 @ ''.build'')"
    let ?c3 = "?c2\<lparr>build_path := Some ?bp\<rparr>"
    obtain res2 w2 where ed: "ensure_dir_exists sy ?bp (dry_run ?c3) wa = (res2, w2)"
      by (cases "ensure_dir_exists sy ?bp (dry_run ?c3) wa") auto
    from cf d pp gp sp True ed have "r1 = store nm ?c3 rc" "w1 = w2"
      by (simp_all add: configure_def Let_def)
    with rc a ca gpf(1) ensure_dir_exists_checks [OF ed]
    show ?thesis
      by (auto simp: store_def intro: checks_only_trans)
  next
    case False
    from cf d pp gp sp False have "r1 = store nm ?c2 rc" "w1 = wa"
      by (simp_all add: configure_def Let_def)
    with rc a ca gpf(1)
    show ?thesis
      by (auto simp: store_def)
  qed
qed

lemma is_installed_frame:
  assumes "is_installed sy r c nl w = (res, c1, w1)"
  shows "checks_only w w1 \<and> component_prefix c1 = component_prefix c \<and>
    (res = Inr True \<and> use_installed c1 \<or> res = Inr False \<and> \<not> use_installed c1)"
proof (cases "use_installed c")
  case False
  with assms have "res = Inr False" "c1 = c" "w1 = w" by (simp_all add: is_installed_def)
  with False show ?thesis by simp
next
  case True
  obtain r0 e0 w0 where se: "set_environment sy c (system_env r) nl w = (r0, e0, w0)"
    by (cases "set_environment sy c (system_env r) nl w") auto
  from set_environment_raises [of sy c "system_env r" nl w _ e0 w0] se True
  obtain u where r0: "r0 = Inr u" by (cases r0) auto
  obtain m c' e' w2 where h: "has_missing_targets sy c e0 w0 = (m, c', e', w2)"
    by (cases "has_missing_targets sy c e0 w0") auto
  from has_missing_targets_found [OF h] obtain b where c': "c' = c\<lparr>targets_found := b\<rparr>" by blast
  have w: "checks_only w w2"
    using checks_only_trans [OF set_environment_checks [OF se] has_missing_targets_checks [OF h]] .
  from assms True se r0 h have "w1 = w2" "c1 = (if m then c'\<lparr>use_installed := False\<rparr> else c')"
    "res = Inr (\<not> m)"
    by (auto simp: is_installed_def split: if_splits)
  with w c' True show ?thesis by auto
qed

lemma check_installed_package_frame:
  assumes "check_installed_package sy c e w = (res, c', e', w')"
  shows "checks_only w w'" "\<exists>b. c' = c\<lparr>targets_found := b\<rparr>"
proof -
  obtain m c1 e1 w1 where h: "has_missing_targets sy c e w = (m, c1, e1, w1)"
    by (cases "has_missing_targets sy c e w") auto
  with assms have "c' = c1" "w' = w1"
    by (auto simp: check_installed_package_def split: if_splits option.splits)
  with has_missing_targets_found [OF h] has_missing_targets_checks [OF h]
  show "checks_only w w'" "\<exists>b. c' = c\<lparr>targets_found := b\<rparr>" by simp_all
qed


section \<open>Help mode\<close>

lemma checks_only_help: "checks_only w w' \<Longrightarrow> opt_help w' = opt_help w"
  by (simp add: checks_only_def)

lemma try_build_help:
  assumes bld: "\<And>nm env nl r w res env' r' w'. opt_help w \<Longrightarrow>
                  bld nm env nl r w = Some (res, env', r', w') \<Longrightarrow> checks_only w w'"
    and h: "opt_help w" and d: "defined r cname = Some c"
    and t: "try_build bld sy cname nl env r w = Some (res, env', r', w')"
  shows "checks_only w w'"
proof -
  obtain res1 r1 w1 where cf: "configure sy cname r w = (res1, r1, w1)"
    by (cases "configure sy cname r w") auto
  from configure_frame [OF d cf] have w1: "checks_only w w1" by simp
  show ?thesis
  proof (cases res1)
    case (Inl e)
    with t cf have "w' = w1" by (simp add: try_build_def)
    with w1 show ?thesis by simp
  next
    case (Inr u)
    from w1 h have h1: "opt_help w1" by (simp add: checks_only_def)
    from t cf Inr obtain res2 env2 r2 w2 where b: "bld cname env nl r1 w1 = Some (res2, env2, r2, w2)"
      by (cases "bld cname env nl r1 w1") (auto simp: try_build_def)
    from bld [OF h1 b] have w2: "checks_only w1 w2" .
    show ?thesis
    proof (cases res2)
      case (Inl e)
      with t cf Inr b have "w' = w2" by (simp add: try_build_def)
      with w1 w2 show ?thesis by (blast intro: checks_only_trans)
    next
      case built: (Inr built)
      let ?m = "if built then (Inr (), r2\<lparr>required := (required r2)(cname \<mapsto> False)\<rparr>)
                else modify_prefix cname r2 w2"
      obtain res3 r3 where m: "?m = (res3, r3)" by (cases ?m) auto
      show ?thesis
      proof (cases res3)
        case (Inl e)
        with t cf Inr b built m have "w' = w2" by (simp add: try_build_def)
        with w1 w2 show ?thesis by (blast intro: checks_only_trans)
      next
        case u3: (Inr u3)
        obtain res4 env4 w4 where se: "set_environment sy (the (defined r3 cname)) env2 nl w2 = (res4, env4, w4)"
          by (cases "set_environment sy (the (defined r3 cname)) env2 nl w2") auto
        with t cf Inr b built m u3 have "w' = w4" by (cases res4) (simp_all add: try_build_def)
        with w1 w2 set_environment_checks [OF se] show ?thesis by (blast intro: checks_only_trans)
      qed
    qed
  qed
qed

lemma require_loop_help:
  assumes bld: "\<And>nm env nl r w res env' r' w'. opt_help w \<Longrightarrow>
                  bld nm env nl r w = Some (res, env', r', w') \<Longrightarrow> checks_only w w'"
  shows "opt_help w \<Longrightarrow> require_loop bld sy kw cnames ch env r w = Some (res, env', r', w')
         \<Longrightarrow> checks_only w w'"
proof (induction cnames arbitrary: ch env r w)
  case Nil
  then show ?case by simp
next
  case (Cons cname cnames)
  note h = Cons.prems(1) and run = Cons.prems(2)
  show ?case
  proof (cases "defined r cname")
    case None
    with run show ?thesis by simp
  next
    case (Some c0)
    show ?thesis
    proof (cases "errors r cname")
      case (Some e)
      with run \<open>defined r cname = Some c0\<close> show ?thesis by simp
    next
      case None
      let ?nl = "if headers_only kw then None
                 else (case libs_kw kw (cname @ ''_libs'') of Some v \<Rightarrow> v | None \<Rightarrow> Some (libs c0))"
      show ?thesis
      proof (cases "required r cname")
        case (Some flag)
        with run \<open>defined r cname = Some c0\<close> None h
        have "require_loop bld sy kw cnames ch env r w = Some (res, env', r', w')" by simp
        from Cons.IH [OF h this] show ?thesis .
      next
        case req: None
        let ?r0 = "r\<lparr>required := (required r)(cname \<mapsto> False)\<rparr>"
        obtain ri c1 w1 where ii: "is_installed sy ?r0 c0 ?nl w = (ri, c1, w1)"
          by (cases "is_installed sy ?r0 c0 ?nl w") auto
        from is_installed_frame [OF ii]
        have w1: "checks_only w w1" and ri: "ri = Inr True \<or> ri = Inr False" by auto
        from w1 h have h1: "opt_help w1" by (simp add: checks_only_def)
        from ri show ?thesis
        proof
          assume "ri = Inr True"
          with run \<open>defined r cname = Some c0\<close> None req ii
          have "require_loop bld sy kw cnames ch env (store cname c1 ?r0) w1 = Some (res, env', r', w')"
            by (simp add: Let_def)
          from Cons.IH [OF h1 this] w1 show ?thesis by (blast intro: checks_only_trans)
        next
          assume f: "ri = Inr False"
          have d1: "defined (store cname c1 ?r0) cname = Some c1" by (simp add: store_def)
          from run \<open>defined r cname = Some c0\<close> None req ii f
          obtain res2 env2 r2 w2 where
            tb: "try_build bld sy cname ?nl env (store cname c1 ?r0) w1 = Some (res2, env2, r2, w2)"
            by (cases "try_build bld sy cname ?nl env (store cname c1 ?r0) w1") (auto simp: Let_def)
          from try_build_help [OF bld h1 d1 tb] have w2: "checks_only w1 w2" by simp
          with h1 have h2: "opt_help w2" by (simp add: checks_only_def)
          show ?thesis
          proof (cases res2)
            case (Inl e)
            with run \<open>defined r cname = Some c0\<close> None req ii f tb have "w' = w2"
              by (simp add: Let_def)
            with w1 w2 show ?thesis by (blast intro: checks_only_trans)
          next
            case (Inr built)
            with run \<open>defined r cname = Some c0\<close> None req ii f tb
            have "require_loop bld sy kw cnames (ch \<or> built) env2 r2 w2 = Some (res, env', r', w')"
              by (simp add: Let_def)
            from Cons.IH [OF h2 this] w1 w2 show ?thesis by (blast intro: checks_only_trans)
          qed
        qed
      qed
    qed
  qed
qed

lemma build_with_help:
  assumes req: "\<And>comps kw env r w res env' r' w'. opt_help w \<Longrightarrow>
                  req comps kw env r w = Some (res, env', r', w') \<Longrightarrow> checks_only w w'"
    and h: "opt_help w"
    and b: "build_with req sy nm env nl r w = Some (res, env', r', w')"
  shows "checks_only w w'"
proof (cases "requires (the (defined r nm)) \<noteq> []")
  case True
  with b h obtain res1 where "req (requires (the (defined r nm))) no_kw env r w = Some (res1, env', r', w')"
    by (auto simp: build_with_def Let_def split: option.splits sum.splits)
  from req [OF h this] show ?thesis .
next
  case False
  with b h have "w' = w" by (auto simp: build_with_def Let_def)
  then show ?thesis by simp
qed

lemma require_help:
  "opt_help w \<Longrightarrow> require depth sy comps kw env r w = Some (res, env', r', w') \<Longrightarrow> checks_only w w'"
proof (induction depth arbitrary: comps kw env r w res env' r' w')
  case 0
  show ?case
    by (rule require_loop_help [of "\<lambda>nm env needed_libs r w. None", OF _ "0.prems"(1)])
       (use "0.prems"(2) in simp_all)
next
  case (Suc depth)
  have "\<And>nm env nl r w res env' r' w'. opt_help w \<Longrightarrow>
          build_with (require depth sy) sy nm env nl r w = Some (res, env', r', w') \<Longrightarrow> checks_only w w'"
    by (rule build_with_help [of "require depth sy"]) (rule Suc.IH)
  from require_loop_help [of "build_with (require depth sy) sy", OF this Suc.prems(1)] Suc.prems(2)
  show ?case by simp
qed


section \<open>Components without a retriever\<close>

lemma build_with_prebuilt:
  assumes p: "truthy (prebuilt_path (the (defined r nm)))" and h: "\<not> opt_help w"
  shows "\<exists>res env' r' w'. build_with req sy nm env nl r w = Some (res, env', r', w') \<and> checks_only w w'"
proof -
  let ?c = "the (defined r nm)"
  obtain res1 env1 w1 where s1: "set_environment sy ?c env nl w = (res1, env1, w1)"
    by (cases "set_environment sy ?c env nl w") auto
  note w1 = set_environment_checks [OF s1]
  show ?thesis
  proof (cases res1)
    case (Inl e)
    with s1 h have "build_with req sy nm env nl r w = Some (Inl e, env1, r, w1)"
      by (simp add: build_with_def Let_def)
    with w1 show ?thesis by simp
  next
    case (Inr u)
    show ?thesis
    proof (cases "opt_clean w1")
      case True
      with Inr s1 h have "build_with req sy nm env nl r w = Some (Inr True, env1, r, w1)"
        by (simp add: build_with_def Let_def)
      with w1 show ?thesis by simp
    next
      case False
      obtain res2 ec1 w2 where s2: "set_environment sy ?c (system_env r) (Some (libs ?c)) w1 = (res2, ec1, w2)"
        by (cases "set_environment sy ?c (system_env r) (Some (libs ?c)) w1") auto
      note w2 = checks_only_trans [OF w1 set_environment_checks [OF s2]]
      show ?thesis
      proof (cases res2)
        case (Inl e)
        with s1 Inr False s2 h have "build_with req sy nm env nl r w = Some (Inl e, env1, r, w2)"
          by (simp add: build_with_def Let_def)
        with w2 show ?thesis by simp
      next
        case u2: (Inr u2)
        obtain res3 c3 ec3 w3 where ci: "check_installed_package sy ?c ec1 w2 = (res3, c3, ec3, w3)"
          by (cases "check_installed_package sy ?c ec1 w2") auto
        from check_installed_package_frame [OF ci] have "checks_only w2 w3" by simp
        note w3 = checks_only_trans [OF w2 this]
        from s1 Inr False s2 u2 ci h p
        have "\<exists>res. build_with req sy nm env nl r w = Some (res, env1, store nm c3 r, w3)"
          by (cases res3) (simp_all add: build_with_def Let_def)
        with w3 show ?thesis by blast
      qed
    qed
  qed
qed

text \<open>
  C5.  For a component defined with no retriever, \<open>configure\<close> leaves
  \<open>prebuilt_path = "/usr"\<close> in the component, whatever else it does and also when it
  raises.  A \<open>build\<close> that follows, of any nesting bound, with any environment and any
  libraries, adds to the trace only configure probes, \<open>pkg-config\<close> queries and made
  directories: no command is run or printed, nothing is downloaded, extracted or
  removed.  Outside help mode it returns whatever the nesting bound is.
\<close>

theorem configure_build_no_retriever:
  assumes "defined r nm = Some c" and "retriever c = None"
    and "configure sy nm r w = (res, r1, w1)"
  shows "prebuilt_path (the (defined r1 nm)) = Some ''/usr'' \<and>
         (\<forall>depth env nl res2 env2 r2 w2.
            build depth sy nm env nl r1 w1 = Some (res2, env2, r2, w2) \<longrightarrow> checks_only w1 w2) \<and>
         (\<not> opt_help w \<longrightarrow> (\<forall>depth env nl. \<exists>out. build depth sy nm env nl r1 w1 = Some out))"
proof -
  from configure_frame [OF assms(1,3)] assms(2) obtain c1 where
    w1: "checks_only w w1" and c1: "defined r1 nm = Some c1" "prebuilt_path c1 = Some ''/usr''"
    by auto
  then have p: "truthy (prebuilt_path (the (defined r1 nm)))" by (simp add: truthy_def)
  have a: "checks_only w1 w2" if b: "build depth sy nm env nl r1 w1 = Some (res2, env2, r2, w2)"
    for depth env nl res2 env2 r2 w2
  proof (cases "opt_help w1")
    case True
    have "\<And>comps kw env r w res env' r' w'. opt_help w \<Longrightarrow>
            require depth sy comps kw env r w = Some (res, env', r', w') \<Longrightarrow> checks_only w w'"
      by (rule require_help)
    from build_with_help [of "require depth sy", OF this True] b show ?thesis
      by (simp add: build_def)
  next
    case False
    from build_with_prebuilt [OF p False, of "require depth sy" sy env nl] b show ?thesis
      by (auto simp: build_def)
  qed
  have b: "\<exists>out. build depth sy nm env nl r1 w1 = Some out" if "\<not> opt_help w" for depth env nl
  proof -
    from that w1 have "\<not> opt_help w1" by (simp add: checks_only_def)
    from build_with_prebuilt [OF p this, of "require depth sy" sy env nl] show ?thesis
      by (auto simp: build_def)
  qed
  from c1 a b show ?thesis by auto
qed

theorem configure_build_no_retriever_witness:
  "prebuilt_path (the (defined (fst (snd (configure example_sys ''foo'' example_registry example_world)))
      ''foo'')) = Some ''/usr''
   \<and> (\<exists>res2 env2 r2 w2.
         build 0 example_sys ''foo'' example_env (Some [''foo''])
           (fst (snd (configure example_sys ''foo'' example_registry example_world)))
           (snd (snd (configure example_sys ''foo'' example_registry example_world)))
         = Some (res2, env2, r2, w2)
         \<and> checks_only (snd (snd (configure example_sys ''foo'' example_registry example_world))) w2)"
proof -
  let ?cf = "configure example_sys ''foo'' example_registry example_world"
  have d: "defined example_registry ''foo'' = Some example_component"
    by (simp add: example_registry_def)
  have rt: "retriever example_component = None" by (simp add: example_component_def)
  have cf: "?cf = (fst ?cf, fst (snd ?cf), snd (snd ?cf))" by simp
  have h: "\<not> opt_help example_world" by (simp add: example_world_def)
  note t = configure_build_no_retriever [OF d rt cf]
  from t h obtain out where
    out: "build 0 example_sys ''foo'' example_env (Some [''foo'']) (fst (snd ?cf)) (snd (snd ?cf)) = Some out"
    by blast
  obtain res2 env2 r2 w2 where o: "out = (res2, env2, r2, w2)" by (cases out)
  from t out o have "checks_only (snd (snd ?cf)) w2" by blast
  with t out o show ?thesis by blast
qed

section \<open>The bookkeeping of the registry\<close>

lemma book_eq:
  "book r' = book r \<longleftrightarrow> required r' = required r \<and> errors r' = errors r \<and> keys r' = keys r"
  by (simp add: book_def)

lemma book_system_env [simp]: "book (r\<lparr>system_env := se\<rparr>) = book r"
  by (simp add: book_def keys_def)

lemma keys_store: "keys (store nm c r) = (keys r)(nm \<mapsto> key_fields c)"
  by (rule ext) (simp add: keys_def store_def)

lemma book_store:
  assumes "defined r nm = Some c" and "key_fields c' = key_fields c"
  shows "book (store nm c' r) = book r"
proof -
  have "keys (store nm c' r) = keys r"
    using assms by (intro ext) (simp add: keys_def store_def)
  then show ?thesis by (simp add: book_def store_def)
qed

lemma dom_keys: "dom (keys r) = dom (defined r)"
  by (auto simp: keys_def)

lemma settled_book: "book r' = book r \<Longrightarrow> settled r' = settled r"
  by (simp add: settled_def book_def)

lemma fits_book: "book r' = book r \<Longrightarrow> fits N r' = fits N r"
  by (simp add: fits_def book_def)

lemma reg_post_book_l:
  assumes "book r1 = book r"
  shows "reg_post r1 res r' = reg_post r res r'"
proof -
  from assms have "required r1 = required r" "errors r1 = errors r" "keys r1 = keys r"
    by (simp_all add: book_def)
  with settled_book [OF assms] show ?thesis by (simp add: reg_post_def)
qed

lemma reg_post_book_r:
  assumes "book r1 = book r'"
  shows "reg_post r res r1 = reg_post r res r'"
proof -
  from assms have "required r1 = required r'" "errors r1 = errors r'" "keys r1 = keys r'"
    by (simp_all add: book_def)
  with settled_book [OF assms] show ?thesis by (simp add: reg_post_def)
qed

lemma reg_post_refl [simp]: "reg_post r res r"
  by (simp add: reg_post_def)

lemma reg_post_book: "book r' = book r \<Longrightarrow> reg_post r res r'"
  using reg_post_book_r [of r' r r res] by simp

lemma reg_post_weaken: "reg_post r (Inr x) r' \<Longrightarrow> reg_post r res r'"
  by (simp add: reg_post_def is_ok_def)

lemma reg_post_trans:
  assumes "reg_post r (Inr x) r1" and "reg_post r1 res r2"
  shows "reg_post r res r2"
proof -
  from assms have "dom (keys r2) = dom (keys r)" by (simp add: reg_post_def)
  moreover from assms have "dom (required r) \<subseteq> dom (required r2)"
    unfolding reg_post_def by blast
  moreover from assms have "settled r \<longrightarrow> settled r2" by (simp add: reg_post_def)
  moreover from assms have "is_ok res \<longrightarrow> errors r2 = errors r"
    by (simp add: reg_post_def is_ok_def)
  ultimately show ?thesis by (simp add: reg_post_def)
qed

lemma fits_mono:
  assumes "reg_post r res r1" and "fits N r"
  shows "fits N r1"
proof -
  from assms have f: "finite (dom (keys r))" and c: "card (dom (keys r) - dom (required r)) < N"
    and d: "dom (keys r1) = dom (keys r)" and s: "dom (required r) \<subseteq> dom (required r1)"
    by (simp_all add: fits_def reg_post_def)
  from s have "dom (keys r) - dom (required r1) \<subseteq> dom (keys r) - dom (required r)" by blast
  moreover from f have "finite (dom (keys r) - dom (required r))" by simp
  ultimately have "card (dom (keys r) - dom (required r1)) \<le> card (dom (keys r) - dom (required r))"
    by (rule card_mono [rotated])
  with c d f show ?thesis by (simp add: fits_def)
qed

lemma outcome_ok_Some [simp]: "outcome_ok N r (Some (res, e, r', w)) = reg_post r res r'"
  by (simp add: outcome_ok_def)

lemma outcome_ok_None [simp]: "outcome_ok N r None = (\<not> fits N r)"
  by (simp add: outcome_ok_def)

lemma outcome_ok_book:
  assumes "book r1 = book r"
  shows "outcome_ok N r1 out = outcome_ok N r out"
proof (cases out)
  case None
  with fits_book [OF assms] show ?thesis by simp
next
  case (Some a)
  obtain res e r' w where "a = (res, e, r', w)" by (cases a)
  with Some reg_post_book_l [OF assms] show ?thesis by simp
qed

lemma outcome_ok_chain:
  assumes "reg_post r (Inr x) r1" and "outcome_ok N r1 out"
  shows "outcome_ok N r out"
proof (cases out)
  case None
  with assms(2) fits_mono [OF assms(1)] show ?thesis by auto
next
  case (Some a)
  obtain res e r' w where "a = (res, e, r', w)" by (cases a)
  with Some assms(2) reg_post_trans [OF assms(1)] show ?thesis by simp
qed

lemma component_get_keys:
  assumes "component_get sy r c w = (res, c', w')"
  shows "key_fields c' = key_fields c"
proof (cases "truthy (prebuilt_path c) \<or> retriever c = None \<or> \<not> download_deps r")
  case True
  with assms have "c' = c"
    by (auto simp: component_get_def Let_def split: option.splits if_splits)
  then show ?thesis by simp
next
  case False
  then obtain rt where rt: "retriever c = Some rt" by auto
  obtain rp w1 where rp: "resolve_patches sy r c w = (rp, w1)" by (cases "resolve_patches sy r c w")
  show ?thesis
  proof (cases rp)
    case (Inl e)
    with assms False rt rp have "c' = c" by (simp add: component_get_def Let_def)
    then show ?thesis by simp
  next
    case (Inr patches)
    show ?thesis
    proof (cases "src_path c")
      case None
      with assms False rt rp Inr have "c' = c" by (simp add: component_get_def Let_def)
      then show ?thesis by simp
    next
      case (Some src)
      show ?thesis
      proof (cases rt)
        case (Git g)
        with assms False rt rp Inr Some have "\<exists>g'. c' = c\<lparr>retriever := Some (Git g')\<rparr>"
          by (auto simp: component_get_def Let_def split: prod.splits)
        then show ?thesis by (auto simp: key_fields_def)
      next
        case (Web wr)
        with assms False rt rp Inr Some have "c' = c"
          by (auto simp: component_get_def Let_def split: prod.splits)
        then show ?thesis by simp
      qed
    qed
  qed
qed

lemma load_config_book: "load_config sy n p r w = (res, r') \<Longrightarrow> book r' = book r"
  by (auto simp: load_config_def Let_def book_def keys_def split: option.splits)

lemma has_missing_targets_keys:
  "has_missing_targets sy c e w = (m, c', e', w') \<Longrightarrow> key_fields c' = key_fields c"
  by (auto dest!: has_missing_targets_found simp: key_fields_def)

lemma check_installed_package_keys:
  "check_installed_package sy c e w = (res, c', e', w') \<Longrightarrow> key_fields c' = key_fields c"
  by (auto dest!: check_installed_package_frame simp: key_fields_def)

lemma modify_prefix_book: "modify_prefix nm r w = (res, r') \<Longrightarrow> book r' = book r"
  by (auto simp: modify_prefix_def Let_def book_def keys_def save_component_prefix_def
           split: option.splits if_splits)


section \<open>What build keeps\<close>

lemma optional_require_ok:
  assumes req: "\<And>comps kw env r w. outcome_ok N r (req comps kw env r w)"
  shows "outcome_ok N r (if b then req comps kw env r w else Some (Inr False, env, r, w))"
  using req by simp

lemma build_source_ok:
  assumes req: "\<And>comps kw env r w. outcome_ok N r (req comps kw env r w)"
    and d: "defined r nm = Some c"
  shows "outcome_ok N r (build_source req sy nm ec r w)"
proof -
  obtain missing se w1 where sd: "has_missing_system_deps sy c (system_env r) w = (missing, se, w1)"
    by (cases "has_missing_system_deps sy c (system_env r) w")
  let ?r1 = "r\<lparr>system_env := se\<rparr>"
  have b1: "book ?r1 = book r" by simp
  have d1: "defined ?r1 nm = Some c" using d by simp
  show ?thesis
  proof (cases missing)
    case True
    with d sd have "build_source req sy nm ec r w = Some (Inl (MissingSystemLibs (name c)), ec, ?r1, w1)"
      by (simp add: build_source_def Let_def)
    with reg_post_book [OF b1] show ?thesis by simp
  next
    case False
    obtain rg c2 w2 where cg: "component_get sy ?r1 c w1 = (rg, c2, w2)"
      by (cases "component_get sy ?r1 c w1")
    let ?r2 = "store nm c2 ?r1"
    have b2: "book ?r2 = book r"
      using book_store [OF d1 component_get_keys [OF cg]] b1 by simp
    have d2: "defined ?r2 nm = Some c2" by (simp add: store_def)
    show ?thesis
    proof (cases rg)
      case (Inl e)
      with d sd False cg have "build_source req sy nm ec r w = Some (Inl e, ec, ?r2, w2)"
        by (simp add: build_source_def Let_def)
      with reg_post_book [OF b2] show ?thesis by simp
    next
      case (Inr u)
      obtain rl r3 where lc: "load_config sy (name c2) (src_path c2) ?r2 w2 = (rl, r3)"
        by (cases "load_config sy (name c2) (src_path c2) ?r2 w2")
      have b3: "book r3 = book r" using load_config_book [OF lc] b2 by simp
      show ?thesis
      proof (cases rl)
        case (Inl e)
        with d sd False cg Inr lc have "build_source req sy nm ec r w = Some (Inl e, ec, r3, w2)"
          by (simp add: build_source_def Let_def)
        with reg_post_book [OF b3] show ?thesis by simp
      next
        case u2: (Inr u2)
        let ?X = "if requires c2 \<noteq> []
                  then (case req (requires c2) needed_libs_none_kw ec r3 w2 of
                          None \<Rightarrow> None
                        | Some (Inl e, ec, r4, w4) \<Rightarrow> Some (Inl e, ec, r4, w4)
                        | Some (Inr ch, ec, r4, w4) \<Rightarrow>
                            (let c4 = the (defined r4 nm) in
                             case set_environment sy c4 ec (Some (libs c4)) w4 of
                               (Inl e, ec', w5) \<Rightarrow> Some (Inl e, ec', r4, w5)
                             | (Inr u, ec', w5) \<Rightarrow> Some (Inr ch, ec', r4, w5)))
                  else Some (Inr False, ec, r3, w2)"
        have X: "outcome_ok N r ?X \<and> (\<forall>ch e5 r5 w5. ?X = Some (Inr ch, e5, r5, w5) \<longrightarrow> reg_post r (Inr ch) r5)"
        proof (cases "requires c2 \<noteq> []")
          case False
          with reg_post_book [OF b3] show ?thesis by simp
        next
          case True
          note rq = req [of r3 "requires c2" needed_libs_none_kw ec w2]
          show ?thesis
          proof (cases "req (requires c2) needed_libs_none_kw ec r3 w2")
            case None
            with rq True fits_book [OF b3] show ?thesis by simp
          next
            case (Some a)
            obtain res4 e4 r4 w4 where a: "a = (res4, e4, r4, w4)" by (cases a)
            from rq Some a reg_post_book_l [OF b3] have p: "reg_post r res4 r4" by simp
            show ?thesis
            proof (cases res4)
              case (Inl e)
              with True Some a p show ?thesis by simp
            next
              case (Inr ch)
              obtain rs e5 w5 where
                se: "set_environment sy (the (defined r4 nm)) e4 (Some (libs (the (defined r4 nm)))) w4
                     = (rs, e5, w5)"
                by (cases "set_environment sy (the (defined r4 nm)) e4 (Some (libs (the (defined r4 nm)))) w4")
              from p Inr have p': "reg_post r (Inr ch) r4" by simp
              from True Some a Inr se p' reg_post_weaken [OF p'] show ?thesis
                by (cases rs) (simp_all add: Let_def)
            qed
          qed
        qed
        have unfold: "build_source req sy nm ec r w =
          (case ?X of
             None \<Rightarrow> None
           | Some (Inl e, ec, r5, w5) \<Rightarrow> Some (Inl e, ec, r5, w5)
           | Some (Inr ch, ec, r5, w5) \<Rightarrow>
               (let c5 = the (defined r5 nm) in
                case ensure_dir_exists sy (prereq_prefix r5) (dry_run c5) w5 of
                  (Inl e, w6) \<Rightarrow> Some (Inl e, ec, r5, w6)
                | (Inr u, w6) \<Rightarrow>
                    (case (if out_of_src_build c5 then rm_old_dir c5 (build_path c5) w6
                           else (Inr (), w6)) of
                       (Inl e, w7) \<Rightarrow> Some (Inl e, ec, r5, w7)
                     | (Inr u, w7) \<Rightarrow>
                         (case run_commands sy (reg_env r5) (build_commands c5)
                                 (build_path c5) (Some ec) w7 of
                            (Inl e, w8) \<Rightarrow> Some (Inl e, ec, r5, w8)
                          | (Inr ok, w8) \<Rightarrow>
                              if \<not> ok then Some (Inl (BuildFailure (name c5)), ec, r5, w8)
                              else Some (Inr True, ec, r5, w8)))))"
          using d sd False cg Inr lc u2 by (simp add: build_source_def Let_def)
        show ?thesis
        proof (cases ?X)
          case None
          with X unfold show ?thesis by simp
        next
          case (Some a)
          obtain res5 e5 r5 w5 where a: "a = (res5, e5, r5, w5)" by (cases a)
          show ?thesis
          proof (cases res5)
            case (Inl e)
            with X unfold Some a show ?thesis by simp
          next
            case (Inr ch)
            with X Some a have p: "reg_post r (Inr ch) r5" by simp
            from unfold Some a Inr have "\<exists>res e' w'. build_source req sy nm ec r w = Some (res, e', r5, w')"
              by (simp add: Let_def split: prod.splits sum.splits)
            with reg_post_weaken [OF p] show ?thesis by auto
          qed
        qed
      qed
    qed
  qed
qed

lemma defined_after:
  assumes "reg_post r res r1" and "defined r nm = Some c"
  shows "\<exists>c1. defined r1 nm = Some c1"
proof -
  from assms(1) have "dom (keys r1) = dom (keys r)" by (simp add: reg_post_def)
  then have "dom (defined r1) = dom (defined r)" by (simp add: dom_keys)
  with assms(2) show ?thesis by blast
qed

lemma build_finish_ok:
  assumes req: "\<And>comps kw env r w. outcome_ok N r (req comps kw env r w)"
    and d: "defined r nm = Some c"
  shows "outcome_ok N r (build_finish req sy nm changes ec r w)"
proof -
  let ?X = "if requires (the (defined r nm)) \<noteq> []
            then req (requires (the (defined r nm))) needed_libs_none_kw ec r w
            else Some (Inr False, ec, r, w)"
  have X: "outcome_ok N r ?X" using req by simp
  show ?thesis
  proof (cases ?X)
    case None
    with X show ?thesis by (simp add: build_finish_def)
  next
    case (Some a)
    obtain res1 ec1 r1 w1 where a: "a = (res1, ec1, r1, w1)" by (cases a)
    from X Some a have p: "reg_post r res1 r1" by simp
    show ?thesis
    proof (cases res1)
      case (Inl e)
      with Some a p show ?thesis by (simp add: build_finish_def)
    next
      case (Inr u)
      with p have pr: "reg_post r (Inr u) r1" by simp
      from defined_after [OF p d] obtain c1 where d1: "defined r1 nm = Some c1" by blast
      obtain rs ec2 w2 where se: "set_environment sy c1 ec1 (Some (libs c1)) w1 = (rs, ec2, w2)"
        by (cases "set_environment sy c1 ec1 (Some (libs c1)) w1")
      show ?thesis
      proof (cases rs)
        case (Inl e)
        with Some a Inr d1 se have "build_finish req sy nm changes ec r w = Some (Inl e, ec2, r1, w2)"
          by (simp add: build_finish_def Let_def)
        with reg_post_weaken [OF pr] show ?thesis by simp
      next
        case u2: (Inr u2)
        let ?pr = "if changes then patch_rpaths sy r1 c1 w2 else (Inr (), w2)"
        obtain rp w3 where pp: "?pr = (rp, w3)" by (cases ?pr)
        show ?thesis
        proof (cases rp)
          case (Inl e)
          with Some a Inr d1 se u2 pp
          have "build_finish req sy nm changes ec r w = Some (Inl e, ec2, r1, w3)"
            by (auto simp: build_finish_def Let_def split: if_splits)
          with reg_post_weaken [OF pr] show ?thesis by simp
        next
          case u3: (Inr u3)
          obtain m c4 ec4 w4 where h: "has_missing_targets sy c1 ec2 w3 = (m, c4, ec4, w4)"
            by (cases "has_missing_targets sy c1 ec2 w3")
          have b: "book (store nm c4 r1) = book r1"
            by (rule book_store [OF d1 has_missing_targets_keys [OF h]])
          from Some a Inr d1 se u2 pp u3 h
          have "\<exists>res. build_finish req sy nm changes ec r w = Some (res, ec4, store nm c4 r1, w4)"
            by (auto simp: build_finish_def Let_def split: if_splits)
          moreover have "reg_post r res (store nm c4 r1)" for res
            using reg_post_weaken [OF pr, of res] reg_post_book_r [OF b, of r res] by simp
          ultimately show ?thesis by auto
        qed
      qed
    qed
  qed
qed

lemma outcome_ok_env:
  "outcome_ok N r (case out of None \<Rightarrow> None | Some (res, e', r', w') \<Rightarrow> Some (res, env, r', w'))
     = outcome_ok N r out"
  by (cases out) (auto split: prod.splits)

lemma build_with_ok:
  assumes req: "\<And>comps kw env r w. outcome_ok N r (req comps kw env r w)"
    and d: "defined r nm = Some c"
  shows "outcome_ok N r (build_with req sy nm env nl r w)"
proof (cases "opt_help w")
  case True
  let ?X = "if requires c \<noteq> [] then req (requires c) no_kw env r w else Some (Inr False, env, r, w)"
  have X: "outcome_ok N r ?X" using req by simp
  have u: "build_with req sy nm env nl r w =
             (case ?X of None \<Rightarrow> None
              | Some (Inl e, env1, r1, w1) \<Rightarrow> Some (Inl e, env1, r1, w1)
              | Some (Inr u, env1, r1, w1) \<Rightarrow> Some (Inr True, env1, r1, w1))"
    using True d by (simp add: build_with_def Let_def)
  show ?thesis
  proof (cases ?X)
    case None
    with X u show ?thesis by simp
  next
    case (Some a)
    obtain res1 env1 r1 w1 where a: "a = (res1, env1, r1, w1)" by (cases a)
    from X Some a have p: "reg_post r res1 r1" by simp
    show ?thesis
    proof (cases res1)
      case (Inl e)
      with u Some a p show ?thesis by simp
    next
      case (Inr b)
      with p have "reg_post r (Inr True) r1" by (simp add: reg_post_def is_ok_def)
      with u Some a Inr show ?thesis by simp
    qed
  qed
next
  case False
  obtain rs1 env1 w1 where s1: "set_environment sy c env nl w = (rs1, env1, w1)"
    by (cases "set_environment sy c env nl w")
  show ?thesis
  proof (cases "is_ok rs1 \<and> \<not> opt_clean w1")
    case stop: False
    with False d s1 have "\<exists>res. build_with req sy nm env nl r w = Some (res, env1, r, w1)"
      by (cases rs1) (auto simp: build_with_def Let_def is_ok_def)
    then show ?thesis by auto
  next
    case True
    then obtain u1 where u1: "rs1 = Inr u1" and nc: "\<not> opt_clean w1"
      by (cases rs1) (auto simp: is_ok_def)
    obtain rs2 ec1 w2 where s2: "set_environment sy c (system_env r) (Some (libs c)) w1 = (rs2, ec1, w2)"
      by (cases "set_environment sy c (system_env r) (Some (libs c)) w1")
    show ?thesis
    proof (cases rs2)
      case (Inl e)
      with False d s1 u1 nc s2 have "build_with req sy nm env nl r w = Some (Inl e, env1, r, w2)"
        by (simp add: build_with_def Let_def)
      then show ?thesis by simp
    next
      case u2: (Inr u2)
      show ?thesis
      proof (cases "truthy (prebuilt_path c)")
        case True
        obtain r3 c3 ec3 w3 where ci: "check_installed_package sy c ec1 w2 = (r3, c3, ec3, w3)"
          by (cases "check_installed_package sy c ec1 w2")
        have b: "book (store nm c3 r) = book r"
          by (rule book_store [OF d check_installed_package_keys [OF ci]])
        from False d s1 u1 nc s2 u2 True ci
        have "\<exists>res. build_with req sy nm env nl r w = Some (res, env1, store nm c3 r, w3)"
          by (cases r3) (simp_all add: build_with_def Let_def)
        with reg_post_book [OF b] show ?thesis by auto
      next
        case np: False
        let ?bd0 = "build_deps r \<and> ''all'' \<notin> set (installed r) \<and> name c \<notin> set (installed r)
                    \<and> \<not> (truthy (component_prefix c) \<and> exists w2 (the (component_prefix c)))"
        let ?T = "if ?bd0 \<and> \<not> truthy (package c) then (True, False, c, ec1, w2)
                  else case has_missing_targets sy c ec1 w2 of
                         (missing, c3, ec3, w3) \<Rightarrow> (?bd0 \<and> missing, missing, c3, ec3, w3)"
        obtain bd mt c3 ec3 w3 where T: "?T = (bd, mt, c3, ec3, w3)" by (cases ?T)
        have k3: "key_fields c3 = key_fields c"
        proof (cases "?bd0 \<and> \<not> truthy (package c)")
          case True
          with T show ?thesis by simp
        next
          case False
          obtain m c3' ec3' w3' where h: "has_missing_targets sy c ec1 w2 = (m, c3', ec3', w3')"
            by (cases "has_missing_targets sy c ec1 w2")
          with False T have "c3 = c3'" by auto
          with has_missing_targets_keys [OF h] show ?thesis by simp
        qed
        let ?r3 = "store nm c3 r"
        have b3: "book ?r3 = book r" by (rule book_store [OF d k3])
        have d3: "defined ?r3 nm = Some c3" by (simp add: store_def)
        let ?Y = "if bd then build_source req sy nm ec3 ?r3 w3
                  else if mt \<and> \<not> dry_run c3 then Some (Inl (BuildRequired (name c3)), ec3, ?r3, w3)
                  else Some (Inr False, ec3, ?r3, w3)"
        have Y3: "outcome_ok N ?r3 ?Y"
          using build_source_ok [of N req ?r3 nm c3 sy ec3 w3, OF req d3] by simp
        then have Y: "outcome_ok N r ?Y" by (simp only: outcome_ok_book [OF b3])
        have u: "build_with req sy nm env nl r w =
                   (case ?Y of None \<Rightarrow> None
                    | Some (Inl e, ec4, r4, w4) \<Rightarrow> Some (Inl e, env1, r4, w4)
                    | Some (Inr changes, ec4, r4, w4) \<Rightarrow>
                        (case build_finish req sy nm changes ec4 r4 w4 of
                           None \<Rightarrow> None
                         | Some (res, ec5, r5, w5) \<Rightarrow> Some (res, env1, r5, w5)))"
          using False d s1 u1 nc s2 u2 np T
          by (auto simp: build_with_def Let_def split: if_splits prod.splits)
        show ?thesis
        proof (cases ?Y)
          case None
          with Y u show ?thesis by simp
        next
          case (Some a)
          obtain res4 ec4 r4 w4 where a: "a = (res4, ec4, r4, w4)" by (cases a)
          from Y Some a have p: "reg_post r res4 r4" by simp
          show ?thesis
          proof (cases res4)
            case (Inl e)
            with u Some a p show ?thesis by simp
          next
            case (Inr changes)
            from defined_after [OF p d] obtain c4 where d4: "defined r4 nm = Some c4" by blast
            have "outcome_ok N r4 (build_finish req sy nm changes ec4 r4 w4)"
              by (rule build_finish_ok [OF req d4])
            with p Inr have "outcome_ok N r (build_finish req sy nm changes ec4 r4 w4)"
              by (auto intro: outcome_ok_chain)
            then have "outcome_ok N r
                (case build_finish req sy nm changes ec4 r4 w4 of
                   None \<Rightarrow> None
                 | Some (res, ec5, r5, w5) \<Rightarrow> Some (res, env1, r5, w5))"
              by (simp only: outcome_ok_env)
            with u Some a Inr show ?thesis by simp
          qed
        qed
      qed
    qed
  qed
qed

end
